theory Spec2Isabelle
  imports Main "HOL-Library.Word"
begin

unbundle bit_operations_syntax

section \<open>Machine types and outcomes\<close>

type_synonym u8 = "8 word"
type_synonym u16 = "16 word"
type_synonym u32 = "32 word"

text \<open>
  What the C code leaves undefined is an outcome of its own in the model: a read of a
  32-bit word that is not inside the buffer (the index of the word is kept), and a
  remainder by zero.
\<close>

datatype ub = ReadOutOfBounds nat | DivisionByZero

datatype ('e, 'a) outcome = Ret 'a | Fail 'e | Undefined ub

section \<open>Firmware image (usb\_device.c)\<close>

text \<open>
  The image is the byte buffer \<open>image\<close> of \<open>size\<close> bytes that \<open>load_image\<close> reads from the
  file. It is the list \<open>img\<close> here (\<open>image\<close> is a constant of HOL), and \<open>size\<close> is its
  length. The code reads it through \<open>(uint32_t * ) image\<close>: word \<open>i\<close> is the four bytes
  at offsets \<open>4 i .. 4 i + 3\<close>, in the byte order of the host, which is little-endian
  here. A word is inside the buffer when all four bytes are.
\<close>

definition le32 :: "u8 \<Rightarrow> u8 \<Rightarrow> u8 \<Rightarrow> u8 \<Rightarrow> u32" where
  "le32 b0 b1 b2 b3 =
     ucast b0 OR push_bit 8 (ucast b1) OR push_bit 16 (ucast b2) OR push_bit 24 (ucast b3)"

definition read_word :: "u8 list \<Rightarrow> nat \<Rightarrow> u32 option" where
  "read_word img i =
     (if 4 * i + 4 \<le> length img
      then Some (le32 (img ! (4 * i)) (img ! (4 * i + 1)) (img ! (4 * i + 2))
                      (img ! (4 * i + 3)))
      else None)"

datatype image_error =
  TooSmall | BadMagic | BadConfig | BadType | SectionTooLarge | ChecksumMismatch

text \<open>The inner loop \<open>while (loadSz--) checksum += *current++\<close>.\<close>

fun sum_words :: "u8 list \<Rightarrow> nat \<Rightarrow> nat \<Rightarrow> u32 \<Rightarrow> (image_error, u32) outcome" where
  "sum_words img current 0 checksum = Ret checksum"
| "sum_words img current (Suc loadSz) checksum =
     (case read_word img current of
        None \<Rightarrow> Undefined (ReadOutOfBounds current)
      | Some w \<Rightarrow> sum_words img (current + 1) loadSz (checksum + w))"

text \<open>
  The loop \<open>while (1)\<close> of \<open>validate_image\<close>, from the word index \<open>current\<close> with the
  running \<open>checksum\<close>. It returns the index after the terminating zero word and the sum.
  The pointer comparison \<open>current + loadSz >= end - 2\<close> is taken on byte offsets from the
  start of the image, where \<open>end\<close> is at offset \<open>size\<close>; \<open>size\<close> is at least 10240 when
  the loop runs, so \<open>end - 2\<close> is at offset \<open>size - 8\<close>. Addresses do not wrap (a 64-bit
  address space).
\<close>

function walk_sections :: "u8 list \<Rightarrow> nat \<Rightarrow> u32 \<Rightarrow> (image_error, nat \<times> u32) outcome" where
  "walk_sections img current checksum =
     (case read_word img current of
        None \<Rightarrow> Undefined (ReadOutOfBounds current)
      | Some loadSz \<Rightarrow>
          if loadSz = 0 then Ret (current + 1, checksum)
          else (case read_word img (current + 1) of
                  None \<Rightarrow> Undefined (ReadOutOfBounds (current + 1))
                | Some secStart \<Rightarrow>
                    if 4 * (current + 2 + unat loadSz) + 8 \<ge> length img
                    then Fail SectionTooLarge
                    else (case sum_words img (current + 2) (unat loadSz) checksum of
                            Ret checksum' \<Rightarrow>
                              walk_sections img (current + 2 + unat loadSz) checksum'
                          | Fail e \<Rightarrow> Fail e
                          | Undefined u \<Rightarrow> Undefined u)))"
  by pat_completeness auto
termination
  by (relation "measure (\<lambda>(img, current, checksum). length img - 4 * current)")
     (auto simp: read_word_def split: if_splits)

declare walk_sections.simps [simp del]

text \<open>
  \<open>validate_image\<close>. \<open>Ret warned\<close> is the return value 0, where \<open>warned\<close> says that the
  warning "image file longer than expected" was printed; \<open>Fail e\<close> is the return value -1
  after the message of \<open>e\<close>.
\<close>

definition validate_image :: "u8 list \<Rightarrow> (image_error, bool) outcome" where
  "validate_image img =
     (if length img < 10240 then Fail TooSmall
      else if \<not> (img ! 0 = 0x43 \<and> img ! 1 = 0x59) then Fail BadMagic
      else if \<not> (img ! 2 = 0x1c) then Fail BadConfig
      else if \<not> (img ! 3 = 0xb0) then Fail BadType
      else (case walk_sections img 1 0 of
              Ret (current, checksum) \<Rightarrow>
                (case read_word img current of
                   None \<Rightarrow> Undefined (ReadOutOfBounds current)
                 | Some entryAddr \<Rightarrow>
                     (case read_word img (current + 1) of
                        None \<Rightarrow> Undefined (ReadOutOfBounds (current + 1))
                      | Some expected_checksum \<Rightarrow>
                          if \<not> (checksum = expected_checksum) then Fail ChecksumMismatch
                          else Ret (\<not> (4 * (current + 2) = length img))))
            | Fail e \<Rightarrow> Fail e
            | Undefined u \<Rightarrow> Undefined u))"

subsection \<open>Transfer of the image to the device\<close>

text \<open>
  One call of \<open>libusb_control_transfer\<close>: the setup fields, the bytes at the data pointer
  (\<open>wLength\<close> of them) and the timeout. The device and the USB stack are the environment:
  \<open>dev k r\<close> is the value the \<open>k\<close>-th call returns when it is the request \<open>r\<close> (the number
  of bytes transferred, or a negative libusb error code). The log holds the calls made so
  far, each with the value it returned.
\<close>

record ctrl_xfer =
  bmRequestType :: u8
  bRequest :: u8
  wValue :: u16
  wIndex :: u16
  xfer_data :: "u8 list"
  wLength :: u16
  timeout :: nat

datatype usb_error = UsbError int | ShortWrite

type_synonym usb_log = "(ctrl_xfer \<times> int) list"

text \<open>
  \<open>LIBUSB_ENDPOINT_OUT | LIBUSB_REQUEST_TYPE_VENDOR | LIBUSB_RECIPIENT_DEVICE\<close> is
  \<open>0x00 | 0x40 | 0x00\<close> in libusb.h.
\<close>

definition vendor_out :: u8 where
  "vendor_out = 0x00 OR 0x40 OR 0x00"

definition max_write_size :: nat where
  "max_write_size = 2 * 1024"

text \<open>\<open>uint16_t wLength = nleft > max_write_size ? max_write_size : nleft\<close>.\<close>

definition chunk_length :: "nat \<Rightarrow> u16" where
  "chunk_length nleft = (if nleft > max_write_size then of_nat max_write_size else of_nat nleft)"

lemma unat_chunk_length: "unat (chunk_length nleft) = min nleft 2048"
  by (simp add: chunk_length_def max_write_size_def unat_of_nat min_def)

text \<open>
  The loop \<open>for (size_t nleft = loadSz * 4; nleft > 0; )\<close> over the data of one section:
  \<open>data\<close> is the byte offset of the data pointer in the image. Every chunk goes to the
  same \<open>address\<close>, which the loop does not advance. libusb reads \<open>wLength\<close> bytes at the data
  pointer; where they are not all inside the buffer the read is undefined.
\<close>

function write_chunks ::
  "(nat \<Rightarrow> ctrl_xfer \<Rightarrow> int) \<Rightarrow> u8 list \<Rightarrow> u32 \<Rightarrow> nat \<Rightarrow> nat \<Rightarrow> usb_log \<Rightarrow>
     (usb_error, unit) outcome \<times> usb_log" where
  "write_chunks dev img address data nleft log =
     (if nleft > 0 then
        (if length img < data + unat (chunk_length nleft)
         then (Undefined (ReadOutOfBounds (data div 4)), log)
         else
           (let req = \<lparr>bmRequestType = vendor_out, bRequest = 0xa0,
                       wValue = ucast (address AND 0xffff), wIndex = ucast (drop_bit 16 address),
                       xfer_data = take (unat (chunk_length nleft)) (drop data img),
                       wLength = chunk_length nleft, timeout = 5000\<rparr>;
                ret = dev (length log) req
            in if ret < 0 then (Fail (UsbError ret), log @ [(req, ret)])
               else if \<not> (ret = uint (chunk_length nleft)) then (Fail ShortWrite, log @ [(req, ret)])
               else write_chunks dev img address (data + unat (chunk_length nleft))
                      (nleft - unat (chunk_length nleft)) (log @ [(req, ret)])))
      else (Ret (), log))"
  by pat_completeness auto
termination
  by (relation "measure (\<lambda>(dev, img, address, data, nleft, log). nleft)")
     (auto simp: unat_chunk_length)

declare write_chunks.simps [simp del]

text \<open>
  The loop \<open>while (1)\<close> of \<open>transfer_image\<close> from the word index \<open>current\<close>. The function has
  no size argument and checks no bound; the model keeps the bounds to say where a read
  is undefined. \<open>loadSz * 4\<close> is a product of 32-bit unsigned values, so it wraps.
\<close>

function transfer_sections ::
  "(nat \<Rightarrow> ctrl_xfer \<Rightarrow> int) \<Rightarrow> u8 list \<Rightarrow> nat \<Rightarrow> usb_log \<Rightarrow>
     (usb_error, nat) outcome \<times> usb_log" where
  "transfer_sections dev img current log =
     (case read_word img current of
        None \<Rightarrow> (Undefined (ReadOutOfBounds current), log)
      | Some loadSz \<Rightarrow>
          if loadSz = 0 then (Ret (current + 1), log)
          else (case read_word img (current + 1) of
                  None \<Rightarrow> (Undefined (ReadOutOfBounds (current + 1)), log)
                | Some address \<Rightarrow>
                    (case write_chunks dev img address (4 * (current + 2)) (unat (loadSz * 4)) log of
                       (Ret u, log') \<Rightarrow>
                         transfer_sections dev img (current + 2 + unat loadSz) log'
                     | (Fail e, log') \<Rightarrow> (Fail e, log')
                     | (Undefined u, log') \<Rightarrow> (Undefined u, log'))))"
  by pat_completeness auto
termination
  by (relation "measure (\<lambda>(dev, img, current, log). length img - 4 * current)")
     (auto simp: read_word_def split: if_splits)

declare transfer_sections.simps [simp del]

text \<open>
  \<open>transfer_image\<close>. \<open>Ret warned\<close> is the return value 0, where \<open>warned\<close> says that
  \<open>usb_warning\<close> was called for the last control transfer; \<open>Fail e\<close> is the return value -1.
  The call \<open>sleep(1)\<close> changes nothing in the model. The last transfer has a null data
  pointer and length 0.
\<close>

definition transfer_image ::
  "(nat \<Rightarrow> ctrl_xfer \<Rightarrow> int) \<Rightarrow> u8 list \<Rightarrow> (usb_error, bool) outcome \<times> usb_log" where
  "transfer_image dev img =
     (case transfer_sections dev img 1 [] of
        (Ret current, log) \<Rightarrow>
          (case read_word img current of
             None \<Rightarrow> (Undefined (ReadOutOfBounds current), log)
           | Some entryAddr \<Rightarrow>
               (case read_word img (current + 1) of
                  None \<Rightarrow> (Undefined (ReadOutOfBounds (current + 1)), log)
                | Some checksum \<Rightarrow>
                    (let req = \<lparr>bmRequestType = vendor_out, bRequest = 0xa0,
                                wValue = ucast (entryAddr AND 0xffff),
                                wIndex = ucast (drop_bit 16 entryAddr),
                                xfer_data = [], wLength = 0, timeout = 5000\<rparr>;
                         ret = dev (length log) req
                     in (Ret (ret < 0), log @ [(req, ret)]))))
      | (Fail e, log) \<Rightarrow> (Fail e, log)
      | (Undefined u, log) \<Rightarrow> (Undefined u, log))"

subsection \<open>The image format, as the specification describes it\<close>

text \<open>
  A section is its start address and its data words; its load size is the number of data
  words, which is not zero (a zero load size ends the section list) and fits 32 bits.
  \<open>encode_image\<close> lays an image out as the format says: the four header bytes, the
  sections, the terminating zero load size, the entry address, the checksum, and then
  whatever bytes follow in the file.
\<close>

definition enc_word :: "u32 \<Rightarrow> u8 list" where
  "enc_word w = [ucast w, ucast (drop_bit 8 w), ucast (drop_bit 16 w), ucast (drop_bit 24 w)]"

record fw_section =
  start_address :: u32
  sec_data :: "u32 list"

definition enc_section :: "fw_section \<Rightarrow> u8 list" where
  "enc_section s =
     enc_word (of_nat (length (sec_data s))) @ enc_word (start_address s) @
     concat (map enc_word (sec_data s))"

definition enc_sections :: "fw_section list \<Rightarrow> u8 list" where
  "enc_sections secs = concat (map enc_section secs)"

definition image_header :: "u8 list" where
  "image_header = [0x43, 0x59, 0x1c, 0xb0]"

definition encode_image :: "fw_section list \<Rightarrow> u32 \<Rightarrow> u32 \<Rightarrow> u8 list \<Rightarrow> u8 list" where
  "encode_image secs entry_address checksum trailing =
     image_header @ enc_sections secs @ enc_word 0 @ enc_word entry_address @
     enc_word checksum @ trailing"

definition well_formed :: "fw_section list \<Rightarrow> bool" where
  "well_formed secs =
     list_all (\<lambda>s. 0 < length (sec_data s) \<and> length (sec_data s) < 2 ^ 32) secs"

definition word_sum :: "fw_section list \<Rightarrow> u32" where
  "word_sum secs = sum_list (concat (map sec_data secs))"

text \<open>The number of 32-bit words the sections take in the image.\<close>

definition section_words :: "fw_section list \<Rightarrow> nat" where
  "section_words secs = sum_list (map (\<lambda>s. 2 + length (sec_data s)) secs)"

text \<open>
  The section of the specification's scenario: four data words of value 1 loaded at
  address 0.
\<close>

definition spec_section :: fw_section where
  "spec_section = \<lparr>start_address = 0, sec_data = [1, 1, 1, 1]\<rparr>"

text \<open>The 10240-byte image of the scenario, with checksum 4 and 10200 zero bytes after it.\<close>

definition spec_image :: "u8 list" where
  "spec_image = encode_image [spec_section] 0 4 (replicate 10200 0)"

text \<open>
  An image file of 10241 bytes, a size that is not a multiple of four: the header, one
  section of 2555 zero words loaded at address 0, the terminating zero load size, the
  entry address, and one last byte where the checksum word would start.
\<close>

definition odd_size_image :: "u8 list" where
  "odd_size_image =
     image_header @ enc_section \<lparr>start_address = 0, sec_data = replicate 2555 0\<rparr> @
     enc_word 0 @ enc_word 0 @ [0]"

text \<open>
  An image file of 4 GiB and 24 bytes: the header, one section of \<open>2 ^ 30\<close> zero words
  loaded at address 0, the terminating zero load size, the entry address 0 and the
  checksum 0.
\<close>

definition huge_section :: fw_section where
  "huge_section = \<lparr>start_address = 0, sec_data = replicate (2 ^ 30) 0\<rparr>"

definition huge_image :: "u8 list" where
  "huge_image = encode_image [huge_section] 0 0 []"

subsection \<open>The control transfers of an image, as the specification describes them\<close>

text \<open>
  The specification's side of the transfer: the data of a section is cut into pieces of
  at most 2048 bytes, each piece is written by one vendor request (host to device, request
  code 0xa0) whose \<open>wValue\<close> is the low half and whose \<open>wIndex\<close> is the high half of the
  section's start address, and one request without data, addressed at the entry point,
  ends the transfer.
\<close>

function chunks_of :: "nat \<Rightarrow> 'a list \<Rightarrow> 'a list list" where
  "chunks_of n xs = (if n = 0 \<or> xs = [] then [] else take n xs # chunks_of n (drop n xs))"
  by pat_completeness auto
termination
  by (relation "measure (\<lambda>(n, xs). length xs)") auto

declare chunks_of.simps [simp del]

definition write_request :: "u32 \<Rightarrow> u8 list \<Rightarrow> ctrl_xfer" where
  "write_request address bytes =
     \<lparr>bmRequestType = 0x40, bRequest = 0xa0, wValue = ucast address,
      wIndex = ucast (drop_bit 16 address), xfer_data = bytes,
      wLength = of_nat (length bytes), timeout = 5000\<rparr>"

definition section_requests :: "fw_section \<Rightarrow> ctrl_xfer list" where
  "section_requests s =
     map (write_request (start_address s)) (chunks_of 2048 (concat (map enc_word (sec_data s))))"

definition image_requests :: "fw_section list \<Rightarrow> ctrl_xfer list" where
  "image_requests secs = concat (map section_requests secs)"

text \<open>
  A request that the device takes in full, as the log holds it; a device that takes the
  first \<open>n\<close> requests in full; an entry of the log where fewer bytes were transferred than
  requested.
\<close>

definition accepted :: "ctrl_xfer \<Rightarrow> ctrl_xfer \<times> int" where
  "accepted r = (r, uint (wLength r))"

definition accepts :: "(nat \<Rightarrow> ctrl_xfer \<Rightarrow> int) \<Rightarrow> nat \<Rightarrow> bool" where
  "accepts dev n = (\<forall>k<n. \<forall>r. dev k r = uint (wLength r))"

definition short_write :: "ctrl_xfer \<times> int \<Rightarrow> bool" where
  "short_write p = (0 \<le> snd p \<and> snd p < uint (wLength (fst p)))"

text \<open>
  Sections whose data the loader can address: the load size is not zero and four times
  the load size fits the 32 bits of \<open>loadSz * 4\<close>, as it does in every image smaller
  than 4 GiB.
\<close>

definition transferable :: "fw_section list \<Rightarrow> bool" where
  "transferable secs =
     list_all (\<lambda>s. 0 < length (sec_data s) \<and> length (sec_data s) < 2 ^ 30) secs"

section \<open>ADC streaming engine (adc.c)\<close>

datatype ADCStatus =
  ADC_STATUS_OFF | ADC_STATUS_READY | ADC_STATUS_STREAMING | ADC_STATUS_CANCELLED |
  ADC_STATUS_FAILED

text \<open>
  Modelled from the spec: the declaration of \<open>usb_device_t\<close> (usb\_device\_internals.h) is
  not among the sources. The specification gives the handle the bulk-in endpoint's
  address, maximum packet size and maximum burst; their widths here are those of the USB
  descriptor fields they come from (\<open>bEndpointAddress\<close>, \<open>wMaxPacketSize\<close>, \<open>bMaxBurst\<close>).
\<close>

record usb_device =
  dev_handle :: nat
  bulk_in_endpoint_address :: u8
  bulk_in_max_packet_size :: u16
  bulk_in_max_burst :: u8

text \<open>
  The fields of a \<open>libusb_transfer\<close> that \<open>libusb_fill_bulk_transfer\<close> sets; the callback
  of every transfer is \<open>adc_read_async_callback\<close> and its user data is the engine. A frame
  is known by the address \<open>libusb_dev_mem_alloc\<close> returned for it.
\<close>

record libusb_transfer =
  endpoint :: u8
  buffer :: nat
  xfer_length :: u32
  xfer_timeout :: nat

text \<open>
  The engine. \<open>active_transfers\<close> is the \<open>atomic_int\<close>: 32 bits in two's complement, read as
  a signed value by \<open>sint\<close>; \<open>atomic_fetch_add\<close> and \<open>atomic_fetch_sub\<close> wrap. The user's
  callback and its context are opaque values.
\<close>

record adc =
  status :: ADCStatus
  usb_device :: usb_device
  sample_rate :: u32
  frame_size :: u32
  num_frames :: u32
  callback :: nat
  callback_context :: nat
  frames :: "nat list"
  transfers :: "libusb_transfer list"
  active_transfers :: u32

definition DEFAULT_ADC_SAMPLE_RATE :: u32 where
  "DEFAULT_ADC_SAMPLE_RATE = 64000000"

definition DEFAULT_ADC_FRAME_SIZE :: u32 where
  "DEFAULT_ADC_FRAME_SIZE = 16 * 1024"

definition DEFAULT_ADC_NUM_FRAMES :: u32 where
  "DEFAULT_ADC_NUM_FRAMES = 64"

text \<open>\<open>LIBUSB_ERROR_NOT_FOUND\<close> of libusb.h.\<close>

definition LIBUSB_ERROR_NOT_FOUND :: int where
  "LIBUSB_ERROR_NOT_FOUND = - 5"

datatype libusb_transfer_status =
  LIBUSB_TRANSFER_COMPLETED | LIBUSB_TRANSFER_ERROR | LIBUSB_TRANSFER_TIMED_OUT |
  LIBUSB_TRANSFER_CANCELLED | LIBUSB_TRANSFER_STALL | LIBUSB_TRANSFER_NO_DEVICE |
  LIBUSB_TRANSFER_OVERFLOW

text \<open>
  What the engine does to the outside, in the order it does it: the calls of libusb, each
  with the value it returned (a transfer is named by its index in the ring
  \<open>this->transfers\<close>), and the calls of the user's sample callback, with the number of
  bytes and the index of the transfer whose buffer is passed. The messages written to
  stderr are not part of the model.
\<close>

datatype usb_event =
  Submit nat int | Cancel nat int | HandleEvents int | DevMemAlloc u32 nat |
  DevMemFree nat u32 | UserCallback int nat

text \<open>
  A completion that libusb reports to the callback: the transfer, its status and the
  number of bytes received.
\<close>

record completion =
  xfer :: nat
  xfer_status :: libusb_transfer_status
  actual_length :: int

text \<open>
  libusb and the device are the environment. The number of events before a call tells
  the calls apart: \<open>submit_ret h k i\<close> and \<open>cancel_ret h k i\<close> are the values that
  submitting and cancelling transfer \<open>i\<close> return, \<open>alloc_ret h k\<close> is the address that
  \<open>libusb_dev_mem_alloc\<close> returns (0 is the null pointer), \<open>events_ret h k\<close> is the value
  of \<open>libusb_handle_events_timeout_completed\<close> and \<open>pending h k\<close> the completions it
  reports to the callback before it returns. The user's callback does not touch the
  engine.
\<close>

record host =
  submit_ret :: "nat \<Rightarrow> nat \<Rightarrow> int"
  cancel_ret :: "nat \<Rightarrow> nat \<Rightarrow> int"
  alloc_ret :: "nat \<Rightarrow> nat"
  events_ret :: "nat \<Rightarrow> int"
  pending :: "nat \<Rightarrow> completion list"

datatype adc_error = NoBulkEndpoint | InvalidFrameSize | BufferAllocationFailed

text \<open>
  \<open>adc_open_sync\<close>: the null pointer is returned when there is no bulk-in endpoint.
\<close>

definition adc_open_sync :: "usb_device \<Rightarrow> (adc_error, adc) outcome" where
  "adc_open_sync dev =
     (if bulk_in_endpoint_address dev = 0 then Fail NoBulkEndpoint
      else Ret \<lparr>status = ADC_STATUS_READY, usb_device = dev,
                 sample_rate = DEFAULT_ADC_SAMPLE_RATE, frame_size = 0, num_frames = 0,
                 callback = 0, callback_context = 0, frames = [], transfers = [],
                 active_transfers = 0\<rparr>)"

text \<open>
  The allocation loop of \<open>adc_open_async\<close>: \<open>n\<close> frames are still to allocate and
  \<open>allocated\<close> are the frames allocated so far. When an allocation returns the null pointer the frames
  allocated so far are freed in order.
\<close>

fun alloc_frames ::
  "host \<Rightarrow> u32 \<Rightarrow> nat \<Rightarrow> nat list \<Rightarrow> usb_event list \<Rightarrow> nat list option \<times> usb_event list" where
  "alloc_frames h fsize 0 allocated trace = (Some allocated, trace)"
| "alloc_frames h fsize (Suc n) allocated trace =
     (let p = alloc_ret h (length trace) in
      if p = 0
      then (None, trace @ [DevMemAlloc fsize p] @ map (\<lambda>b. DevMemFree b fsize) allocated)
      else alloc_frames h fsize n (allocated @ [p]) (trace @ [DevMemAlloc fsize p]))"

text \<open>
  \<open>adc_open_async\<close>. A failure is the null pointer in C; which one it is shows in the
  message. The product of the packet size and the burst is computed in \<open>int\<close> (both
  operands are promoted) and cannot overflow; the remainder by it is undefined when it
  is zero. The two calls of \<open>malloc\<close> are taken to succeed.
\<close>

definition adc_open_async ::
  "host \<Rightarrow> usb_device \<Rightarrow> u32 \<Rightarrow> u32 \<Rightarrow> nat \<Rightarrow> nat \<Rightarrow> usb_event list \<Rightarrow>
     (adc_error, adc) outcome \<times> usb_event list" where
  "adc_open_async h dev frame_size0 num_frames0 cb ctx trace =
     (if bulk_in_endpoint_address dev = 0 then (Fail NoBulkEndpoint, trace)
      else
        (let fsize = (if frame_size0 > 0 then frame_size0 else DEFAULT_ADC_FRAME_SIZE);
             nframes = (if num_frames0 > 0 then num_frames0 else DEFAULT_ADC_NUM_FRAMES);
             max_xfer_size = (ucast (bulk_in_max_packet_size dev) * ucast (bulk_in_max_burst dev) :: u32)
         in if max_xfer_size = 0 then (Undefined DivisionByZero, trace)
            else if fsize mod max_xfer_size \<noteq> 0 then (Fail InvalidFrameSize, trace)
            else (case alloc_frames h fsize (unat nframes) [] trace of
                    (None, trace') \<Rightarrow> (Fail BufferAllocationFailed, trace')
                  | (Some bufs, trace') \<Rightarrow>
                      (Ret \<lparr>status = ADC_STATUS_READY, usb_device = dev,
                             sample_rate = DEFAULT_ADC_SAMPLE_RATE,
                             frame_size = (if fsize > 0 then fsize else DEFAULT_ADC_FRAME_SIZE),
                             num_frames = (if nframes > 0 then nframes else DEFAULT_ADC_NUM_FRAMES),
                             callback = cb, callback_context = ctx, frames = bufs,
                             transfers =
                               map (\<lambda>b. \<lparr>endpoint = bulk_in_endpoint_address dev, buffer = b,
                                          xfer_length = fsize, xfer_timeout = 5000\<rparr>) bufs,
                             active_transfers = 0\<rparr>, trace'))))"


text \<open>
  The loop of \<open>adc_start\<close> from index \<open>i\<close>, with \<open>n\<close> transfers still to submit. The flag
  says whether every submission succeeded.
\<close>

fun submit_loop ::
  "host \<Rightarrow> nat \<Rightarrow> nat \<Rightarrow> adc \<times> usb_event list \<Rightarrow> bool \<times> adc \<times> usb_event list" where
  "submit_loop h i 0 (this, trace) = (True, this, trace)"
| "submit_loop h i (Suc n) (this, trace) =
     (let ret = submit_ret h (length trace) i in
      if ret < 0
      then (False, this\<lparr>status := ADC_STATUS_FAILED\<rparr>, trace @ [Submit i ret])
      else submit_loop h (i + 1) n
             (this\<lparr>active_transfers := active_transfers this + 1\<rparr>, trace @ [Submit i ret]))"

definition adc_start :: "host \<Rightarrow> adc \<times> usb_event list \<Rightarrow> int \<times> adc \<times> usb_event list" where
  "adc_start h st =
     (case st of (this, trace) \<Rightarrow>
        if status this \<noteq> ADC_STATUS_READY then (- 1, this, trace)
        else (case submit_loop h 0 (unat (num_frames this))
                     (this\<lparr>active_transfers := 0\<rparr>, trace) of
                (True, this', trace') \<Rightarrow> (0, this'\<lparr>status := ADC_STATUS_STREAMING\<rparr>, trace')
              | (False, this', trace') \<Rightarrow> (- 1, this', trace')))"

text \<open>
  The loop at the end of \<open>adc_read_async_callback\<close>: \<open>n\<close> iterations, each a call of
  \<open>libusb_cancel_transfer(transfer)\<close>, where \<open>transfer\<close> is the argument of the callback
  (here its index \<open>t\<close>). The value returned only decides whether a message is written.
\<close>

fun cancel_loop_callback :: "host \<Rightarrow> nat \<Rightarrow> nat \<Rightarrow> usb_event list \<Rightarrow> usb_event list" where
  "cancel_loop_callback h t 0 trace = trace"
| "cancel_loop_callback h t (Suc n) trace =
     cancel_loop_callback h t n (trace @ [Cancel t (cancel_ret h (length trace) t)])"

text \<open>The code of the callback after the \<open>switch\<close>, which the two \<open>break\<close>s reach.\<close>

definition callback_failed :: "host \<Rightarrow> adc \<times> usb_event list \<Rightarrow> nat \<Rightarrow> adc \<times> usb_event list" where
  "callback_failed h st t =
     (case st of (this, trace) \<Rightarrow>
        (this\<lparr>status := ADC_STATUS_FAILED, active_transfers := active_transfers this - 1\<rparr>,
         cancel_loop_callback h t (unat (num_frames this)) trace))"

text \<open>
  \<open>adc_read_async_callback\<close>. \<open>atomic_fetch_sub\<close> returns the value before the
  subtraction; the callbacks of libusb run one after the other.
\<close>

definition adc_read_async_callback ::
  "host \<Rightarrow> adc \<times> usb_event list \<Rightarrow> completion \<Rightarrow> adc \<times> usb_event list" where
  "adc_read_async_callback h st transfer =
     (case st of (this, trace) \<Rightarrow>
        (case xfer_status transfer of
           LIBUSB_TRANSFER_COMPLETED \<Rightarrow>
             if status this = ADC_STATUS_STREAMING then
               (let trace1 = trace @ [UserCallback (actual_length transfer) (xfer transfer)];
                    ret = submit_ret h (length trace1) (xfer transfer);
                    trace2 = trace1 @ [Submit (xfer transfer) ret]
                in if ret = 0 then (this, trace2)
                   else callback_failed h (this, trace2) (xfer transfer))
             else callback_failed h (this, trace) (xfer transfer)
         | LIBUSB_TRANSFER_CANCELLED \<Rightarrow>
             (let old = active_transfers this;
                  this' = this\<lparr>active_transfers := old - 1\<rparr>
              in if old = 1 \<and> status this' = ADC_STATUS_CANCELLED
                 then (this'\<lparr>status := ADC_STATUS_READY\<rparr>, trace)
                 else (this', trace))
         | _ \<Rightarrow> callback_failed h (this, trace) (xfer transfer)))"

text \<open>The completions of one pass of event handling, reported in order.\<close>

definition dispatch_all ::
  "host \<Rightarrow> adc \<times> usb_event list \<Rightarrow> completion list \<Rightarrow> adc \<times> usb_event list" where
  "dispatch_all h st evs = foldl (adc_read_async_callback h) st evs"

text \<open>
  The loop of \<open>adc_stop\<close> from index \<open>i\<close>, with \<open>n\<close> transfers still to cancel; it cancels
  \<open>this->transfers[i]\<close>.
\<close>

fun cancel_loop_stop ::
  "host \<Rightarrow> nat \<Rightarrow> nat \<Rightarrow> adc \<times> usb_event list \<Rightarrow> adc \<times> usb_event list" where
  "cancel_loop_stop h i 0 (this, trace) = (this, trace)"
| "cancel_loop_stop h i (Suc n) (this, trace) =
     (let ret = cancel_ret h (length trace) i in
      if ret < 0 then
        (if ret = LIBUSB_ERROR_NOT_FOUND
         then cancel_loop_stop h (i + 1) n (this, trace @ [Cancel i ret])
         else cancel_loop_stop h (i + 1) n
                (this\<lparr>status := ADC_STATUS_FAILED\<rparr>, trace @ [Cancel i ret]))
      else cancel_loop_stop h (i + 1) n (this, trace @ [Cancel i ret]))"

text \<open>
  \<open>adc_stop\<close>. The pass of event handling runs the callback on the completions that are
  pending, then returns its value.
\<close>

definition adc_stop :: "host \<Rightarrow> adc \<times> usb_event list \<Rightarrow> int \<times> adc \<times> usb_event list" where
  "adc_stop h st =
     (case st of (this, trace) \<Rightarrow>
        (case cancel_loop_stop h 0 (unat (num_frames this))
                (this\<lparr>status := ADC_STATUS_CANCELLED\<rparr>, trace) of
           (this1, trace1) \<Rightarrow>
             (case dispatch_all h (this1, trace1) (pending h (length trace1)) of
                (this2, trace2) \<Rightarrow>
                  (let ret = events_ret h (length trace1) in
                   if ret < 0
                   then (0, this2\<lparr>status := ADC_STATUS_FAILED\<rparr>, trace2 @ [HandleEvents ret])
                   else (0, this2, trace2 @ [HandleEvents ret])))))"

subsection \<open>Engines, hosts and completions of the scenarios\<close>

text \<open>
  A device whose bulk-in endpoint has packets of 512 bytes and bursts of 8, and an engine
  of four frames of 4096 bytes on it, in a given status and with a given counter.
\<close>

definition sample_device :: usb_device where
  "sample_device =
     \<lparr>dev_handle = 1, bulk_in_endpoint_address = 0x81, bulk_in_max_packet_size = 512,
      bulk_in_max_burst = 8\<rparr>"

text \<open>
  A device handle with a bulk-in endpoint of 1024-byte packets whose burst field is 0.
\<close>

definition zero_burst_device :: usb_device where
  "zero_burst_device =
     \<lparr>dev_handle = 1, bulk_in_endpoint_address = 0x81, bulk_in_max_packet_size = 1024,
      bulk_in_max_burst = 0\<rparr>"

definition sample_engine :: "ADCStatus \<Rightarrow> u32 \<Rightarrow> adc" where
  "sample_engine st act =
     \<lparr>status = st, usb_device = sample_device, sample_rate = DEFAULT_ADC_SAMPLE_RATE,
      frame_size = 4096, num_frames = 4, callback = 1, callback_context = 0,
      frames = [4096, 8192, 12288, 16384],
      transfers = map (\<lambda>b. \<lparr>endpoint = 0x81, buffer = b, xfer_length = 4096,
                               xfer_timeout = 5000\<rparr>) [4096, 8192, 12288, 16384],
      active_transfers = act\<rparr>"

text \<open>
  A host where every call succeeds and no completion is pending; one where cancelling
  transfer 2 fails with \<open>LIBUSB_ERROR_IO\<close> and transfer 3 is not found; one where no
  transfer is found.
\<close>

definition quiet_host :: host where
  "quiet_host =
     \<lparr>submit_ret = (\<lambda>k i. 0), cancel_ret = (\<lambda>k i. 0), alloc_ret = (\<lambda>k. 4096 * (k + 1)),
      events_ret = (\<lambda>k. 0), pending = (\<lambda>k. [])\<rparr>"

definition cancel_failing_host :: host where
  "cancel_failing_host =
     \<lparr>submit_ret = (\<lambda>k i. 0),
      cancel_ret = (\<lambda>k i. if i = 2 then - 1 else if i = 3 then - 5 else 0),
      alloc_ret = (\<lambda>k. 4096 * (k + 1)), events_ret = (\<lambda>k. 0), pending = (\<lambda>k. [])\<rparr>"

definition not_found_host :: host where
  "not_found_host =
     \<lparr>submit_ret = (\<lambda>k i. 0), cancel_ret = (\<lambda>k i. - 5),
      alloc_ret = (\<lambda>k. 4096 * (k + 1)), events_ret = (\<lambda>k. 0), pending = (\<lambda>k. [])\<rparr>"


text \<open>
  An event in which stopping failed: a cancellation that returned an error other than
  "not found", or a pass of event handling that returned an error.
\<close>

definition stop_failure :: "usb_event \<Rightarrow> bool" where
  "stop_failure e =
     (case e of
        Cancel i ret \<Rightarrow> ret < 0 \<and> ret \<noteq> LIBUSB_ERROR_NOT_FOUND
      | HandleEvents ret \<Rightarrow> ret < 0
      | _ \<Rightarrow> False)"

text \<open>
  The values of the specification for \<open>open_async\<close>: the frame size and the number of
  frames after the defaults (16 KiB and 64) have taken the place of 0, and the product
  of the endpoint's maximum packet size and maximum burst.
\<close>

definition effective_frame_size :: "u32 \<Rightarrow> u32" where
  "effective_frame_size fs = (if fs = 0 then 16 * 1024 else fs)"

definition effective_num_frames :: "u32 \<Rightarrow> u32" where
  "effective_num_frames nf = (if nf = 0 then 64 else nf)"

definition max_xfer :: "usb_device \<Rightarrow> nat" where
  "max_xfer dev = unat (bulk_in_max_packet_size dev) * unat (bulk_in_max_burst dev)"

section \<open>Properties of the firmware loader\<close>

text \<open>C9: every buffer shorter than 10240 bytes is refused as too small, whatever it holds.\<close>

theorem validate_too_small:
  "length img < 10240 \<Longrightarrow> validate_image img = Fail TooSmall"
  by (simp add: validate_image_def)

theorem validate_too_small_witness:
  "length (replicate 10239 (0xff :: u8)) < 10240 \<and>
   validate_image (replicate 10239 0xff) = Fail TooSmall"
  using validate_too_small [of "replicate 10239 0xff"] by simp

subsection \<open>Walking an encoded image\<close>

lemma le32_enc:
  "le32 (ucast w) (ucast (drop_bit 8 w)) (ucast (drop_bit 16 w)) (ucast (drop_bit 24 w)) = w"
  unfolding le32_def
proof (rule bit_word_eqI)
  fix n assume n: "n < LENGTH(32)"
  have c: "n < 8 \<or> (8 \<le> n \<and> n < 16) \<or> (16 \<le> n \<and> n < 24) \<or> (24 \<le> n \<and> n < 32)"
    using n by auto
  show "bit (ucast (ucast w :: u8) OR push_bit 8 (ucast (ucast (drop_bit 8 w) :: u8)) OR
          push_bit 16 (ucast (ucast (drop_bit 16 w) :: u8)) OR
          push_bit 24 (ucast (ucast (drop_bit 24 w) :: u8)) :: u32) n = bit w n"
    using c n by (auto simp: bit_simps)
qed

lemma length_enc_word [simp]: "length (enc_word w) = 4"
  by (simp add: enc_word_def)

lemma read_word_enc:
  "length pre = 4 * c \<Longrightarrow> read_word (pre @ enc_word w @ post) c = Some w"
  by (simp add: read_word_def nth_append enc_word_def le32_enc)

lemma length_concat_enc [simp]: "length (concat (map enc_word ws)) = 4 * length ws"
  by (induction ws) simp_all

lemma length_enc_section [simp]: "length (enc_section s) = 4 * (2 + length (sec_data s))"
  by (simp add: enc_section_def)

lemma length_enc_sections [simp]: "length (enc_sections secs) = 4 * section_words secs"
  by (induction secs) (simp_all add: enc_sections_def section_words_def)

lemma sum_words_enc:
  "length pre = 4 * c \<Longrightarrow>
   sum_words (pre @ concat (map enc_word ws) @ post) c (length ws) acc = Ret (acc + sum_list ws)"
proof (induction ws arbitrary: pre c acc)
  case Nil
  then show ?case by simp
next
  case (Cons w ws)
  have len: "length (pre @ enc_word w) = 4 * (c + 1)"
    using Cons.prems by simp
  have "sum_words ((pre @ enc_word w) @ concat (map enc_word ws) @ post) (c + 1) (length ws)
          (acc + w) = Ret (acc + w + sum_list ws)"
    by (rule Cons.IH [OF len])
  then show ?case
    using Cons.prems by (simp add: read_word_enc add.assoc)
qed

lemma unat_load_size: "n < 2 ^ 32 \<Longrightarrow> unat (of_nat n :: u32) = n"
  by (simp add: unat_of_nat)

lemma load_size_nonzero: "0 < n \<Longrightarrow> n < 2 ^ 32 \<Longrightarrow> (of_nat n :: u32) \<noteq> 0"
  using unat_load_size [of n] by auto

lemma walk_section_step:
  assumes pre: "length pre = 4 * c"
    and wf: "0 < length (sec_data s)" "length (sec_data s) < 2 ^ 32"
    and rest: "8 < length rest"
  shows "walk_sections (pre @ enc_section s @ rest) c acc =
         walk_sections (pre @ enc_section s @ rest) (c + 2 + length (sec_data s))
           (acc + sum_list (sec_data s))"
proof -
  let ?n = "length (sec_data s)"
  let ?img = "pre @ enc_section s @ rest"
  have r0: "read_word ?img c = Some (of_nat ?n)"
    using read_word_enc [OF pre] by (simp add: enc_section_def)
  have r1: "read_word ?img (c + 1) = Some (start_address s)"
    using read_word_enc [of "pre @ enc_word (of_nat ?n)" "c + 1" "start_address s"] pre
    by (simp add: enc_section_def)
  have sw: "sum_words ?img (c + 2) ?n acc = Ret (acc + sum_list (sec_data s))"
    using sum_words_enc [of "pre @ enc_word (of_nat ?n) @ enc_word (start_address s)" "c + 2"
        "sec_data s" rest acc] pre
    by (simp add: enc_section_def)
  have guard: "\<not> length ?img \<le> 4 * (c + 2 + ?n) + 8"
    using pre rest by simp
  show ?thesis
    by (subst walk_sections.simps)
       (simp only: r0 r1 sw guard load_size_nonzero [OF wf] unat_load_size [OF wf(2)]
          option.case outcome.case if_False)
qed

lemma walk_sections_enc:
  "length pre = 4 * c \<Longrightarrow> well_formed secs \<Longrightarrow> 8 < length rest \<Longrightarrow>
   walk_sections (pre @ enc_sections secs @ rest) c acc =
   walk_sections (pre @ enc_sections secs @ rest) (c + section_words secs) (acc + word_sum secs)"
proof (induction secs arbitrary: pre c acc)
  case Nil
  then show ?case by (simp add: enc_sections_def section_words_def word_sum_def)
next
  case (Cons s secs)
  let ?n = "length (sec_data s)"
  have wf: "0 < ?n" "?n < 2 ^ 32" "well_formed secs"
    using Cons.prems(2) by (simp_all add: well_formed_def)
  have split: "pre @ enc_sections (s # secs) @ rest =
               pre @ enc_section s @ (enc_sections secs @ rest)"
    by (simp add: enc_sections_def)
  have split': "pre @ enc_sections (s # secs) @ rest =
               (pre @ enc_section s) @ enc_sections secs @ rest"
    by (simp add: enc_sections_def)
  have len: "length (pre @ enc_section s) = 4 * (c + 2 + ?n)"
    using Cons.prems(1) by simp
  have "walk_sections (pre @ enc_sections (s # secs) @ rest) c acc =
        walk_sections (pre @ enc_sections (s # secs) @ rest) (c + 2 + ?n) (acc + sum_list (sec_data s))"
    unfolding split
    by (rule walk_section_step [OF Cons.prems(1) wf(1,2)]) (use Cons.prems(3) in simp)
  also have "\<dots> = walk_sections (pre @ enc_sections (s # secs) @ rest)
                    (c + 2 + ?n + section_words secs) (acc + sum_list (sec_data s) + word_sum secs)"
    unfolding split'
    by (rule Cons.IH [OF len wf(3) Cons.prems(3)])
  finally show ?case
    by (simp add: section_words_def word_sum_def add.assoc)
qed

lemma word_sum_append: "word_sum (A @ B) = word_sum A + word_sum B"
  by (simp add: word_sum_def)

lemma word_sum_single: "word_sum [s] = sum_list (sec_data s)"
  by (simp add: word_sum_def)

lemma length_encode_image:
  "length (encode_image secs entry ck trailing) = 4 * (section_words secs + 4) + length trailing"
  by (simp add: encode_image_def image_header_def)

lemma validate_encode_image:
  assumes wf: "well_formed secs"
    and big: "10240 \<le> length (encode_image secs entry ck trailing)"
  shows "validate_image (encode_image secs entry ck trailing) =
         (if word_sum secs = ck then Ret (trailing \<noteq> []) else Fail ChecksumMismatch)"
proof -
  let ?img = "encode_image secs entry ck trailing"
  let ?W = "section_words secs"
  let ?rest = "enc_word 0 @ enc_word entry @ enc_word ck @ trailing"
  have img: "?img = image_header @ enc_sections secs @ ?rest"
    by (simp add: encode_image_def)
  have hdr: "?img ! 0 = 0x43" "?img ! 1 = 0x59" "?img ! 2 = 0x1c" "?img ! 3 = 0xb0"
    by (simp_all add: encode_image_def image_header_def)
  have w1: "walk_sections ?img 1 0 = walk_sections ?img (1 + ?W) (0 + word_sum secs)"
    unfolding img
    by (rule walk_sections_enc [OF _ wf]) (simp_all add: image_header_def)
  have t: "read_word ?img (1 + ?W) = Some 0"
    using read_word_enc [of "image_header @ enc_sections secs" "1 + ?W" 0
        "enc_word entry @ enc_word ck @ trailing"]
    by (simp add: encode_image_def image_header_def)
  have e: "read_word ?img (1 + ?W + 1) = Some entry"
    using read_word_enc [of "image_header @ enc_sections secs @ enc_word 0" "1 + ?W + 1" entry
        "enc_word ck @ trailing"]
    by (simp add: encode_image_def image_header_def)
  have c: "read_word ?img (1 + ?W + 1 + 1) = Some ck"
    using read_word_enc [of "image_header @ enc_sections secs @ enc_word 0 @ enc_word entry"
        "1 + ?W + 1 + 1" ck trailing]
    by (simp add: encode_image_def image_header_def)
  have w2: "walk_sections ?img (1 + ?W) (0 + word_sum secs) = Ret (1 + ?W + 1, word_sum secs)"
    by (subst walk_sections.simps, simp only: t option.case, simp)
  have warn: "(\<not> 4 * (1 + ?W + 1 + 2) = length ?img) = (trailing \<noteq> [])"
    by (simp add: length_encode_image)
  have nsmall: "\<not> length ?img < 10240"
    using big by simp
  show ?thesis
    unfolding validate_image_def
    by (simp only: nsmall hdr w1 w2 e c warn if_False simp_thms outcome.case prod.case
        option.case, simp)
qed

text \<open>
  C3: a well-formed image of at least 10240 bytes validates exactly when the wrapping
  32-bit sum of all its section data words equals the stored checksum word, and fails
  with \<open>ChecksumMismatch\<close> otherwise; so replacing any one data word of an image that
  validates by a different value makes validation fail with \<open>ChecksumMismatch\<close>. The
  10240-byte image of the scenario (one section of four words of value 1, then 10200
  further bytes \<open>pad\<close>) validates with checksum 4, with the warning about the longer
  file, and fails with \<open>ChecksumMismatch\<close> with checksum 5.
\<close>

theorem validate_checksum_iff:
  assumes wf: "well_formed secs"
    and big: "10240 \<le> length (encode_image secs entry ck trailing)"
  shows "((\<exists>warned. validate_image (encode_image secs entry ck trailing) = Ret warned) \<longleftrightarrow>
            word_sum secs = ck) \<and>
         (word_sum secs \<noteq> ck \<longrightarrow>
            validate_image (encode_image secs entry ck trailing) = Fail ChecksumMismatch) \<and>
         (\<forall>A a P w Q B w'.
            secs = A @ [\<lparr>start_address = a, sec_data = P @ w # Q\<rparr>] @ B \<and>
            word_sum secs = ck \<and> w' \<noteq> w \<longrightarrow>
            validate_image
              (encode_image (A @ [\<lparr>start_address = a, sec_data = P @ w' # Q\<rparr>] @ B)
                 entry ck trailing) = Fail ChecksumMismatch) \<and>
         (length pad = 10200 \<longrightarrow>
            validate_image (encode_image [spec_section] 0 4 pad) = Ret True \<and>
            validate_image (encode_image [spec_section] 0 5 pad) = Fail ChecksumMismatch)"
proof (intro conjI allI impI)
  show "(\<exists>warned. validate_image (encode_image secs entry ck trailing) = Ret warned) \<longleftrightarrow>
        word_sum secs = ck"
    by (simp add: validate_encode_image [OF wf big])
next
  assume "word_sum secs \<noteq> ck"
  then show "validate_image (encode_image secs entry ck trailing) = Fail ChecksumMismatch"
    by (simp add: validate_encode_image [OF wf big])
next
  fix A a P w Q B w'
  assume h: "secs = A @ [\<lparr>start_address = a, sec_data = P @ w # Q\<rparr>] @ B \<and>
             word_sum secs = ck \<and> w' \<noteq> w"
  let ?secs' = "A @ [\<lparr>start_address = a, sec_data = P @ w' # Q\<rparr>] @ B"
  have wf': "well_formed ?secs'"
    using wf h by (simp add: well_formed_def)
  have "section_words ?secs' = section_words secs"
    using h by (simp add: section_words_def)
  then have big': "10240 \<le> length (encode_image ?secs' entry ck trailing)"
    using big by (simp add: length_encode_image)
  have a: "word_sum secs = word_sum A + (sum_list P + w + sum_list Q) + word_sum B"
    using h by (simp add: word_sum_def)
  have b: "word_sum ?secs' = word_sum A + (sum_list P + w' + sum_list Q) + word_sum B"
    by (simp add: word_sum_def)
  have "word_sum ?secs' - word_sum secs = w' - w"
    unfolding a b by simp
  then have "word_sum ?secs' \<noteq> word_sum secs"
    using h by auto
  moreover have "word_sum secs = ck"
    using h by (rule conjunct2 [THEN conjunct1])
  ultimately have "word_sum ?secs' \<noteq> ck"
    by simp
  then show "validate_image (encode_image ?secs' entry ck trailing) = Fail ChecksumMismatch"
    using validate_encode_image [OF wf' big'] by simp
next
  assume pad: "length pad = 10200"
  have wf4: "well_formed [spec_section]"
    by (simp add: well_formed_def spec_section_def)
  have big4: "10240 \<le> length (encode_image [spec_section] 0 ck' pad)" for ck'
    using pad by (simp add: length_encode_image section_words_def spec_section_def)
  have s4: "word_sum [spec_section] = 4"
    by (simp add: word_sum_def spec_section_def)
  have ne: "pad \<noteq> []"
    using pad by auto
  show "validate_image (encode_image [spec_section] 0 4 pad) = Ret True"
    by (simp add: validate_encode_image [OF wf4 big4] s4 ne)
  show "validate_image (encode_image [spec_section] 0 5 pad) = Fail ChecksumMismatch"
    by (simp add: validate_encode_image [OF wf4 big4] s4)
qed

theorem validate_checksum_iff_witness:
  "well_formed [spec_section] \<and>
   10240 \<le> length (encode_image [spec_section] 0 4 (replicate 10200 0)) \<and>
   length (encode_image [spec_section] 0 4 (replicate 10200 0)) = 10240 \<and>
   word_sum [spec_section] = 4 \<and>
   validate_image (encode_image [spec_section] 0 4 (replicate 10200 0)) = Ret True \<and>
   validate_image (encode_image [spec_section] 0 5 (replicate 10200 0)) = Fail ChecksumMismatch \<and>
   validate_image
     (encode_image [\<lparr>start_address = 0, sec_data = [1, 1, 3, 1]\<rparr>] 0 4 (replicate 10200 0)) =
     Fail ChecksumMismatch"
proof -
  have wf: "well_formed [spec_section]"
    by (simp add: well_formed_def spec_section_def)
  have len: "length (encode_image [spec_section] 0 4 (replicate 10200 0)) = 10240"
    by (simp add: length_encode_image section_words_def spec_section_def)
  have big: "10240 \<le> length (encode_image [spec_section] 0 4 (replicate 10200 0))"
    by (simp add: len)
  have s4: "word_sum [spec_section] = 4"
    by (simp add: word_sum_def spec_section_def)
  note th = validate_checksum_iff [OF wf big, of "replicate 10200 0"]
  have flip: "validate_image
     (encode_image ([] @ [\<lparr>start_address = 0, sec_data = [1, 1] @ 3 # [1]\<rparr>] @ []) 0 4
        (replicate 10200 0)) = Fail ChecksumMismatch"
    using th [THEN conjunct2, THEN conjunct2, THEN conjunct1, rule_format,
        of "[]" 0 "[1, 1]" 1 "[1]" "[]" 3] s4
    by (simp add: spec_section_def)
  show ?thesis
    using wf len big s4 th flip by simp
qed

subsection \<open>Bounds of the reads of validation\<close>

lemma sum_words_in_bounds:
  "4 * (c + n) \<le> length img \<Longrightarrow> \<exists>s. sum_words img c n acc = Ret s"
proof (induction n arbitrary: c acc)
  case 0
  then show ?case by simp
next
  case (Suc n)
  then have "4 * c + 4 \<le> length img" by simp
  then obtain w where w: "read_word img c = Some w"
    by (auto simp: read_word_def)
  from Suc.prems have "4 * ((c + 1) + n) \<le> length img" by simp
  from Suc.IH [OF this] show ?case
    by (simp add: w)
qed

lemma walk_sections_in_bounds:
  "4 * current + 8 < length img \<Longrightarrow> length img mod 4 = 0 \<Longrightarrow>
   (\<forall>u. walk_sections img current acc \<noteq> Undefined u) \<and>
   (\<forall>c' acc'. walk_sections img current acc = Ret (c', acc') \<longrightarrow> 4 * c' + 4 < length img)"
proof (induction img current acc rule: walk_sections.induct)
  case (1 img current checksum)
  from "1.prems" obtain loadSz where l: "read_word img current = Some loadSz"
    by (auto simp: read_word_def)
  from "1.prems" obtain secStart where s: "read_word img (current + 1) = Some secStart"
    by (auto simp: read_word_def)
  from s have s': "read_word img (Suc current) = Some secStart"
    by simp
  show ?case
  proof (cases "loadSz = 0")
    case True
    then show ?thesis
      using "1.prems" by (subst walk_sections.simps, simp add: l)+
  next
    case nz: False
    show ?thesis
    proof (cases "length img \<le> 4 * (current + 2 + unat loadSz) + 8")
      case True
      then show ?thesis
        using nz by (subst walk_sections.simps, simp add: l s s')+
    next
      case g: False
      then have "4 * ((current + 2) + unat loadSz) \<le> length img" by simp
      from sum_words_in_bounds [OF this]
      obtain checksum' where sw:
        "sum_words img (current + 2) (unat loadSz) checksum = Ret checksum'"
        by blast
      have step: "walk_sections img current checksum =
                  walk_sections img (current + 2 + unat loadSz) checksum'"
        by (subst walk_sections.simps)
           (simp only: l s sw nz g option.case outcome.case if_False)
      have "4 * (current + 2 + unat loadSz) + 8 < length img"
        using g by simp
      from "1.IH" [OF l nz s g sw this "1.prems"(2)] show ?thesis
        unfolding step .
    qed
  qed
qed

text \<open>
  When the size is a multiple of four, every word that validation reads is inside the
  buffer.
\<close>

lemma validate_image_in_bounds:
  assumes al: "length img mod 4 = 0"
  shows "validate_image img \<noteq> Undefined u"
proof (cases "length img < 10240")
  case True
  then show ?thesis by (simp add: validate_image_def)
next
  case False
  then have b: "4 * 1 + 8 < length img" by simp
  note w = walk_sections_in_bounds [OF b al, of 0]
  show ?thesis
  proof (cases "walk_sections img 1 0")
    case (Ret p)
    obtain c' acc' where p: "p = (c', acc')" by (cases p)
    from w Ret p have lt: "4 * c' + 4 < length img" by simp
    then have "4 * c' + 8 \<le> length img" using al by presburger
    with lt obtain e k where "read_word img c' = Some e" "read_word img (c' + 1) = Some k"
      by (auto simp: read_word_def)
    then show ?thesis
      using Ret p by (simp add: validate_image_def)
  next
    case (Fail e)
    then show ?thesis by (simp add: validate_image_def)
  next
    case (Undefined u')
    with w show ?thesis by simp
  qed
qed

lemma length_odd_size_image: "length odd_size_image = 10241"
  by (simp add: odd_size_image_def image_header_def)

text \<open>
  C6: the reads of validation do not all stay inside the buffer. On the 10241-byte image
  \<open>odd_size_image\<close> the size and header checks pass, the section passes the test against
  \<open>end - 2\<close>, and the checksum is then read as word 2560, at bytes 10240 to 10243, of which
  only the first is inside the buffer.
\<close>

theorem validate_reads_past_odd_size:
  "validate_image odd_size_image = Undefined (ReadOutOfBounds 2560) \<and>
   length odd_size_image = 10241 \<and>
   read_word odd_size_image 2560 = None"
proof -
  let ?s = "\<lparr>start_address = 0, sec_data = replicate 2555 0\<rparr> :: fw_section"
  let ?rest = "enc_word 0 @ enc_word 0 @ [0 :: u8]"
  have img: "odd_size_image = image_header @ enc_section ?s @ ?rest"
    by (simp add: odd_size_image_def)
  have hdr: "odd_size_image ! 0 = 0x43" "odd_size_image ! 1 = 0x59"
    "odd_size_image ! 2 = 0x1c" "odd_size_image ! 3 = 0xb0"
    by (simp_all add: odd_size_image_def image_header_def)
  have "walk_sections odd_size_image 1 0 =
        walk_sections odd_size_image (1 + 2 + length (sec_data ?s)) (0 + sum_list (sec_data ?s))"
    unfolding img
    by (rule walk_section_step) (simp_all add: image_header_def)
  then have w1: "walk_sections odd_size_image 1 0 = walk_sections odd_size_image 2558 0"
    by (simp add: sum_list_replicate)
  have t: "read_word odd_size_image 2558 = Some 0"
    using read_word_enc [of "image_header @ enc_section ?s" 2558 0 "enc_word 0 @ [0]"]
    by (simp add: odd_size_image_def image_header_def)
  have e: "read_word odd_size_image 2559 = Some 0"
    using read_word_enc [of "image_header @ enc_section ?s @ enc_word 0" 2559 0 "[0]"]
    by (simp add: odd_size_image_def image_header_def)
  have c: "read_word odd_size_image 2560 = None"
    by (simp add: read_word_def length_odd_size_image)
  have w2: "walk_sections odd_size_image 2558 0 = Ret (2559, 0)"
    by (subst walk_sections.simps) (simp add: t)
  have c': "read_word odd_size_image (2559 + 1) = None"
    using c by simp
  have nsmall: "\<not> length odd_size_image < 10240"
    by (simp add: length_odd_size_image)
  have v: "validate_image odd_size_image = Undefined (ReadOutOfBounds 2560)"
    unfolding validate_image_def
    by (simp only: nsmall hdr w1 w2 e c' if_False simp_thms outcome.case prod.case option.case)
       simp
  show ?thesis
    using v c length_odd_size_image by simp
qed

subsection \<open>The requests of a transfer\<close>

lemma low16: "(ucast (a AND 0xffff :: u32) :: u16) = ucast a"
proof -
  have m: "(0xffff :: u32) = mask 16"
    by (simp add: mask_eq_exp_minus_1)
  show ?thesis
    unfolding m by (rule bit_word_eqI) (auto simp: bit_simps)
qed

lemma chunk_length_of_nat: "chunk_length n = of_nat (min n 2048)"
  by (simp add: chunk_length_def max_write_size_def min_def)

lemma chunks_of_Nil [simp]: "chunks_of n [] = []"
  by (simp add: chunks_of.simps)

lemma chunks_of_step:
  "0 < n \<Longrightarrow> xs \<noteq> [] \<Longrightarrow> chunks_of n xs = take n xs # chunks_of n (drop n xs)"
  by (subst chunks_of.simps) simp

lemma write_chunks_accept:
  "drop data img = bytes @ rest \<Longrightarrow> length bytes = nleft \<Longrightarrow>
   accepts dev (length log + length (chunks_of 2048 bytes)) \<Longrightarrow>
   write_chunks dev img address data nleft log =
     (Ret (), log @ map accepted (map (write_request address) (chunks_of 2048 bytes)))"
proof (induction dev img address data nleft log arbitrary: bytes rule: write_chunks.induct)
  case (1 dev img address data nleft log)
  show ?case
  proof (cases "nleft > 0")
    case False
    with "1.prems" show ?thesis
      by (subst write_chunks.simps) simp
  next
    case pos: True
    let ?m = "unat (chunk_length nleft)"
    let ?req = "\<lparr>bmRequestType = vendor_out, bRequest = 0xa0,
                 wValue = ucast (address AND 0xffff), wIndex = ucast (drop_bit 16 address),
                 xfer_data = take ?m (drop data img),
                 wLength = chunk_length nleft, timeout = 5000\<rparr>"
    have m: "?m = min nleft 2048"
      by (rule unat_chunk_length)
    have ne: "bytes \<noteq> []"
      using pos "1.prems"(2) by auto
    have ch: "chunks_of 2048 bytes = take 2048 bytes # chunks_of 2048 (drop 2048 bytes)"
      by (rule chunks_of_step [OF _ ne]) simp
    have tk: "take ?m (drop data img) = take 2048 bytes"
      using "1.prems"(1,2) by (simp add: m min_def)
    have dr: "drop ?m bytes = drop 2048 bytes"
      using "1.prems"(2) by (simp add: m min_def)
    have lenb: "length (take 2048 bytes) = min nleft 2048"
      using "1.prems"(2) by (simp add: min_def)
    have req: "?req = write_request address (take 2048 bytes)"
      unfolding tk using "1.prems"(2)
      by (simp add: write_request_def vendor_out_def low16 chunk_length_of_nat)
    have inb: "\<not> length img < data + ?m"
    proof -
      have "length (drop data img) = nleft + length rest"
        using "1.prems"(1,2) by simp
      then have "length img - data = nleft + length rest"
        by simp
      then show ?thesis using pos unfolding m by linarith
    qed
    have acc0: "dev (length log) ?req = uint (chunk_length nleft)"
      using "1.prems"(3) by (simp add: accepts_def ch)
    have nneg: "\<not> dev (length log) ?req < 0"
      by (simp add: acc0)
    have d': "drop (data + ?m) img = drop 2048 bytes @ rest"
    proof -
      have "drop (data + ?m) img = drop ?m (drop data img)"
        by (simp add: add.commute)
      also have "\<dots> = drop ?m bytes @ rest"
        using "1.prems"(1,2) by (simp add: m)
      finally show ?thesis by (simp add: dr)
    qed
    have l': "length (drop 2048 bytes) = nleft - ?m"
      using "1.prems"(2) by (simp add: m min_def)
    have a': "accepts dev (length (log @ [(?req, dev (length log) ?req)]) +
                length (chunks_of 2048 (drop 2048 bytes)))"
      using "1.prems"(3) by (simp add: ch)
    have ih: "write_chunks dev img address (data + ?m) (nleft - ?m)
                (log @ [(?req, dev (length log) ?req)]) =
              (Ret (), (log @ [(?req, dev (length log) ?req)]) @
                 map accepted (map (write_request address) (chunks_of 2048 (drop 2048 bytes))))"
      by (rule "1.IH" [OF pos inb refl refl nneg _ d' l' a']) (simp add: acc0)
    have "write_chunks dev img address data nleft log =
          write_chunks dev img address (data + ?m) (nleft - ?m)
            (log @ [(?req, dev (length log) ?req)])"
      by (subst write_chunks.simps)
         (simp only: pos inb acc0 Let_def if_True if_False simp_thms uint_lt_0)
    also note ih
    finally have f: "write_chunks dev img address data nleft log =
          (Ret (), (log @ [(?req, dev (length log) ?req)]) @
             map accepted (map (write_request address) (chunks_of 2048 (drop 2048 bytes))))" .
    have wl: "wLength (write_request address (take 2048 bytes)) = chunk_length nleft"
      using arg_cong [OF req, of wLength] by simp
    have e1: "(?req, dev (length log) ?req) = accepted (write_request address (take 2048 bytes))"
      using acc0 unfolding accepted_def wl req by simp
    from f [unfolded e1] show ?thesis
      unfolding ch by simp
  qed
qed

lemma unat_load_bytes: "n < 2 ^ 30 \<Longrightarrow> unat ((of_nat n :: u32) * 4) = 4 * n"
proof -
  assume n: "n < 2 ^ 30"
  have "(of_nat n :: u32) * 4 = of_nat (4 * n)"
    by simp
  moreover have "4 * n < 2 ^ 32"
    using n by simp
  ultimately show ?thesis
    by (simp only: unat_load_size)
qed

lemma transfer_section_step:
  assumes pre: "length pre = 4 * c"
    and wf: "0 < length (sec_data s)" "length (sec_data s) < 2 ^ 30"
    and acc: "accepts dev (length log + length (section_requests s))"
  shows "transfer_sections dev (pre @ enc_section s @ rest) c log =
         transfer_sections dev (pre @ enc_section s @ rest) (c + 2 + length (sec_data s))
           (log @ map accepted (section_requests s))"
proof -
  let ?n = "length (sec_data s)"
  let ?img = "pre @ enc_section s @ rest"
  let ?bytes = "concat (map enc_word (sec_data s))"
  have lt: "?n < 2 ^ 32"
    using wf(2) by simp
  have r0: "read_word ?img c = Some (of_nat ?n)"
    using read_word_enc [OF pre] by (simp add: enc_section_def)
  have r1: "read_word ?img (c + 1) = Some (start_address s)"
    using read_word_enc [of "pre @ enc_word (of_nat ?n)" "c + 1" "start_address s"] pre
    by (simp add: enc_section_def)
  have d: "drop (4 * (c + 2)) ?img = ?bytes @ rest"
  proof -
    have "?img = (pre @ enc_word (of_nat ?n) @ enc_word (start_address s)) @ ?bytes @ rest"
      by (simp add: enc_section_def)
    moreover have "length (pre @ enc_word (of_nat ?n) @ enc_word (start_address s)) = 4 * (c + 2)"
      using pre by simp
    ultimately show ?thesis
      by (metis append_eq_conv_conj)
  qed
  have l: "length ?bytes = unat ((of_nat ?n :: u32) * 4)"
    by (simp add: unat_load_bytes [OF wf(2)])
  have acc': "accepts dev (length log + length (chunks_of 2048 ?bytes))"
    using acc by (simp add: section_requests_def)
  have wc: "write_chunks dev ?img (start_address s) (4 * (c + 2)) (unat ((of_nat ?n :: u32) * 4)) log =
            (Ret (), log @ map accepted (section_requests s))"
    unfolding section_requests_def
    by (rule write_chunks_accept [OF d l acc'])
  show ?thesis
    by (subst transfer_sections.simps)
       (simp only: r0 r1 wc load_size_nonzero [OF wf(1) lt] unat_load_size [OF lt]
          option.case outcome.case prod.case if_False)
qed

lemma transfer_sections_enc:
  "length pre = 4 * c \<Longrightarrow> transferable secs \<Longrightarrow>
   accepts dev (length log + length (image_requests secs)) \<Longrightarrow>
   transfer_sections dev (pre @ enc_sections secs @ rest) c log =
   transfer_sections dev (pre @ enc_sections secs @ rest) (c + section_words secs)
     (log @ map accepted (image_requests secs))"
proof (induction secs arbitrary: pre c log)
  case Nil
  then show ?case by (simp add: enc_sections_def section_words_def image_requests_def)
next
  case (Cons s secs)
  let ?n = "length (sec_data s)"
  let ?img = "pre @ enc_sections (s # secs) @ rest"
  have wf: "0 < ?n" "?n < 2 ^ 30" "transferable secs"
    using Cons.prems(2) by (simp_all add: transferable_def)
  have split: "?img = pre @ enc_section s @ (enc_sections secs @ rest)"
    by (simp add: enc_sections_def)
  have split': "?img = (pre @ enc_section s) @ enc_sections secs @ rest"
    by (simp add: enc_sections_def)
  have len: "length (pre @ enc_section s) = 4 * (c + 2 + ?n)"
    using Cons.prems(1) by simp
  have reqs: "image_requests (s # secs) = section_requests s @ image_requests secs"
    by (simp add: image_requests_def)
  have a1: "accepts dev (length log + length (section_requests s))"
    using Cons.prems(3) by (simp add: accepts_def reqs)
  have a2: "accepts dev (length (log @ map accepted (section_requests s)) +
              length (image_requests secs))"
    using Cons.prems(3) by (simp add: accepts_def reqs add.assoc)
  have "transfer_sections dev ?img c log =
        transfer_sections dev ?img (c + 2 + ?n) (log @ map accepted (section_requests s))"
    unfolding split
    by (rule transfer_section_step [OF Cons.prems(1) wf(1,2) a1])
  also have "\<dots> = transfer_sections dev ?img (c + 2 + ?n + section_words secs)
                    ((log @ map accepted (section_requests s)) @
                     map accepted (image_requests secs))"
    unfolding split'
    by (rule Cons.IH [OF len wf(3) a2])
  finally show ?case
    by (simp add: section_words_def reqs add.assoc)
qed

lemma transfer_encode_image:
  assumes tr: "transferable secs"
    and acc: "accepts dev (length (image_requests secs))"
  shows "transfer_image dev (encode_image secs entry ck trailing) =
         (Ret (dev (length (image_requests secs)) (write_request entry []) < 0),
          map accepted (image_requests secs) @
          [(write_request entry [],
            dev (length (image_requests secs)) (write_request entry []))])"
proof -
  let ?img = "encode_image secs entry ck trailing"
  let ?W = "section_words secs"
  let ?rest = "enc_word 0 @ enc_word entry @ enc_word ck @ trailing"
  let ?log = "map accepted (image_requests secs)"
  have img: "?img = image_header @ enc_sections secs @ ?rest"
    by (simp add: encode_image_def)
  have acc': "accepts dev (length ([] :: usb_log) + length (image_requests secs))"
    using acc by simp
  have w1: "transfer_sections dev ?img 1 [] = transfer_sections dev ?img (1 + ?W) ([] @ ?log)"
    unfolding img
    by (rule transfer_sections_enc [OF _ tr acc']) (simp add: image_header_def)
  have t: "read_word ?img (1 + ?W) = Some 0"
    using read_word_enc [of "image_header @ enc_sections secs" "1 + ?W" 0
        "enc_word entry @ enc_word ck @ trailing"]
    by (simp add: encode_image_def image_header_def)
  have e: "read_word ?img (1 + ?W + 1) = Some entry"
    using read_word_enc [of "image_header @ enc_sections secs @ enc_word 0" "1 + ?W + 1" entry
        "enc_word ck @ trailing"]
    by (simp add: encode_image_def image_header_def)
  have c: "read_word ?img (1 + ?W + 1 + 1) = Some ck"
    using read_word_enc [of "image_header @ enc_sections secs @ enc_word 0 @ enc_word entry"
        "1 + ?W + 1 + 1" ck trailing]
    by (simp add: encode_image_def image_header_def)
  have w2: "transfer_sections dev ?img (1 + ?W) ([] @ ?log) = (Ret (1 + ?W + 1), ?log)"
    by (subst transfer_sections.simps, simp only: t option.case, simp)
  have jump: "\<lparr>bmRequestType = vendor_out, bRequest = 0xa0, wValue = ucast (entry AND 0xffff),
                wIndex = ucast (drop_bit 16 entry), xfer_data = [], wLength = 0,
                timeout = 5000\<rparr> = write_request entry []"
    by (simp add: write_request_def vendor_out_def low16)
  show ?thesis
    unfolding transfer_image_def
    by (simp only: w1 w2 e c jump outcome.case prod.case option.case Let_def length_map)
qed

lemma concat_chunks_of: "0 < n \<Longrightarrow> concat (chunks_of n xs) = xs"
proof (induction n xs rule: chunks_of.induct)
  case (1 n xs)
  show ?case
  proof (cases "xs = []")
    case True
    then show ?thesis by simp
  next
    case False
    with "1.prems" "1.IH" show ?thesis
      by (simp add: chunks_of_step)
  qed
qed

lemma chunks_of_bounded: "c \<in> set (chunks_of n xs) \<Longrightarrow> length c \<le> n \<and> c \<noteq> []"
proof (induction n xs rule: chunks_of.induct)
  case (1 n xs)
  show ?case
  proof (cases "n = 0 \<or> xs = []")
    case True
    with "1.prems" show ?thesis
      by (subst (asm) chunks_of.simps) simp
  next
    case False
    with "1.prems" have "c = take n xs \<or> c \<in> set (chunks_of n (drop n xs))"
      by (subst (asm) chunks_of.simps) simp
    then show ?thesis
    proof
      assume "c = take n xs"
      with False show ?thesis by simp
    next
      assume "c \<in> set (chunks_of n (drop n xs))"
      with "1.IH" False show ?thesis by blast
    qed
  qed
qed

lemma write_chunks_short:
  "\<forall>p\<in>set log. \<not> short_write p \<Longrightarrow>
   write_chunks dev img address data nleft log = (res, log') \<Longrightarrow>
   (\<exists>p\<in>set log'. short_write p) \<Longrightarrow> res = Fail ShortWrite"
proof (induction dev img address data nleft log rule: write_chunks.induct)
  case (1 dev img address data nleft log)
  let ?m = "unat (chunk_length nleft)"
  let ?req = "\<lparr>bmRequestType = vendor_out, bRequest = 0xa0,
               wValue = ucast (address AND 0xffff), wIndex = ucast (drop_bit 16 address),
               xfer_data = take ?m (drop data img),
               wLength = chunk_length nleft, timeout = 5000\<rparr>"
  let ?ret = "dev (length log) ?req"
  consider (fin) "\<not> nleft > 0"
    | (oob) "nleft > 0" "length img < data + ?m"
    | (neg) "nleft > 0" "\<not> length img < data + ?m" "?ret < 0"
    | (short) "nleft > 0" "\<not> length img < data + ?m" "\<not> ?ret < 0" "\<not> ?ret = uint (chunk_length nleft)"
    | (full) "nleft > 0" "\<not> length img < data + ?m" "\<not> ?ret < 0" "?ret = uint (chunk_length nleft)"
    by blast
  then show ?case
  proof cases
    case fin
    then have "write_chunks dev img address data nleft log = (Ret (), log)"
      by (subst write_chunks.simps) simp
    with "1.prems" show ?thesis by auto
  next
    case oob
    then have "write_chunks dev img address data nleft log =
               (Undefined (ReadOutOfBounds (data div 4)), log)"
      by (subst write_chunks.simps) simp
    with "1.prems" show ?thesis by auto
  next
    case neg
    then have "write_chunks dev img address data nleft log =
               (Fail (UsbError ?ret), log @ [(?req, ?ret)])"
      by (subst write_chunks.simps) (simp add: Let_def)
    with "1.prems" neg(3) show ?thesis
      by (auto simp: short_write_def)
  next
    case short
    then have "write_chunks dev img address data nleft log =
               (Fail ShortWrite, log @ [(?req, ?ret)])"
      by (subst write_chunks.simps) (simp add: Let_def)
    with "1.prems" show ?thesis by auto
  next
    case full
    then have step: "write_chunks dev img address data nleft log =
               write_chunks dev img address (data + ?m) (nleft - ?m) (log @ [(?req, ?ret)])"
      by (subst write_chunks.simps) (simp add: Let_def)
    have ns: "\<forall>p\<in>set (log @ [(?req, ?ret)]). \<not> short_write p"
      using "1.prems"(1) full(4) by (auto simp: short_write_def)
    show ?thesis
      by (rule "1.IH" [OF full(1,2) refl refl full(3) _ ns _ "1.prems"(3)])
         (use full(4) "1.prems"(2) step in simp_all)
  qed
qed

lemma transfer_sections_short:
  "\<forall>p\<in>set log. \<not> short_write p \<Longrightarrow>
   transfer_sections dev img current log = (res, log') \<Longrightarrow>
   (\<exists>p\<in>set log'. short_write p) \<Longrightarrow> res = Fail ShortWrite"
proof (induction dev img current log rule: transfer_sections.induct)
  case (1 dev img current log)
  show ?case
  proof (cases "read_word img current")
    case None
    then have "transfer_sections dev img current log = (Undefined (ReadOutOfBounds current), log)"
      by (subst transfer_sections.simps) simp
    with "1.prems" show ?thesis by auto
  next
    case l: (Some loadSz)
    show ?thesis
    proof (cases "loadSz = 0")
      case True
      then have "transfer_sections dev img current log = (Ret (current + 1), log)"
        by (subst transfer_sections.simps) (simp add: l)
      with "1.prems" show ?thesis by auto
    next
      case nz: False
      show ?thesis
      proof (cases "read_word img (current + 1)")
        case None
        then have "transfer_sections dev img current log =
                   (Undefined (ReadOutOfBounds (current + 1)), log)"
          using nz by (subst transfer_sections.simps) (simp only: l option.case if_False)
        with "1.prems" show ?thesis by auto
      next
        case a: (Some address)
        obtain r l1 where wc:
          "write_chunks dev img address (4 * (current + 2)) (unat (loadSz * 4)) log = (r, l1)"
          by (cases "write_chunks dev img address (4 * (current + 2)) (unat (loadSz * 4)) log")
        note ws = write_chunks_short [OF "1.prems"(1) wc]
        show ?thesis
        proof (cases r)
          case (Ret u)
          then have step: "transfer_sections dev img current log =
                     transfer_sections dev img (current + 2 + unat loadSz) l1"
            using nz
            by (subst transfer_sections.simps)
               (simp only: l a wc option.case if_False prod.case outcome.case)
          have ns: "\<forall>p\<in>set l1. \<not> short_write p"
            using ws Ret by auto
          show ?thesis
            by (rule "1.IH" [OF l nz a wc [symmetric] Ret ns _ "1.prems"(3)])
               (use "1.prems"(2) step in simp)
        next
          case (Fail e)
          then have "transfer_sections dev img current log = (Fail e, l1)"
            using nz
            by (subst transfer_sections.simps)
               (simp only: l a wc option.case if_False prod.case outcome.case)
          with "1.prems" ws Fail show ?thesis by auto
        next
          case (Undefined u)
          then have "transfer_sections dev img current log = (Undefined u, l1)"
            using nz
            by (subst transfer_sections.simps)
               (simp only: l a wc option.case if_False prod.case outcome.case)
          with "1.prems" ws Undefined show ?thesis by auto
        qed
      qed
    qed
  qed
qed

lemma transfer_image_short:
  assumes "\<exists>p\<in>set (snd (transfer_image dev img)). short_write p"
  shows "fst (transfer_image dev img) = Fail ShortWrite"
proof -
  obtain r l1 where ts: "transfer_sections dev img 1 [] = (r, l1)"
    by (cases "transfer_sections dev img 1 []")
  have e: "\<forall>p\<in>set ([] :: usb_log). \<not> short_write p"
    by simp
  note s = transfer_sections_short [OF e ts]
  show ?thesis
  proof (cases r)
    case (Ret current)
    then have ns: "\<forall>p\<in>set l1. \<not> short_write p"
      using s by auto
    have "\<forall>p\<in>set (snd (transfer_image dev img)). \<not> short_write p"
      using ns unfolding transfer_image_def ts Ret
      by (auto simp: short_write_def Let_def split: option.splits)
    with assms show ?thesis by blast
  next
    case (Fail e)
    with assms s show ?thesis
      unfolding transfer_image_def ts by auto
  next
    case (Undefined u)
    with assms s show ?thesis
      unfolding transfer_image_def ts by auto
  qed
qed

lemma unat_low16: "unat (ucast (a :: u32) :: u16) = unat a mod 65536"
  by (simp add: unsigned_ucast_eq take_bit_eq_mod)

lemma unat_high16: "unat (ucast (drop_bit 16 (a :: u32)) :: u16) = unat a div 65536"
proof -
  have "unat a < 2 ^ 32"
    using unsigned_less [of a] by simp
  then have "unat a div 65536 < 65536"
    by simp
  then show ?thesis
    by (simp add: unsigned_ucast_eq take_bit_eq_mod unat_drop_bit_eq drop_bit_eq_div
        unat_div_distrib)
qed

lemma write_request_fields:
  "length bytes \<le> 2048 \<Longrightarrow>
   bmRequestType (write_request a bytes) = 0x40 \<and> bRequest (write_request a bytes) = 0xa0 \<and>
   unat (wValue (write_request a bytes)) = unat a mod 65536 \<and>
   unat (wIndex (write_request a bytes)) = unat a div 65536 \<and>
   xfer_data (write_request a bytes) = bytes \<and>
   unat (wLength (write_request a bytes)) = length bytes"
  using unat_low16 [of a] unat_high16 [of a]
  by (simp add: write_request_def unat_of_nat)

lemma section_requests_fields:
  assumes "r \<in> set (section_requests s)"
  shows "bmRequestType r = 0x40 \<and> bRequest r = 0xa0 \<and>
         unat (wValue r) = unat (start_address s) mod 65536 \<and>
         unat (wIndex r) = unat (start_address s) div 65536 \<and>
         length (xfer_data r) \<le> 2048 \<and> xfer_data r \<noteq> [] \<and>
         unat (wLength r) = length (xfer_data r)"
proof -
  from assms obtain c where c: "c \<in> set (chunks_of 2048 (concat (map enc_word (sec_data s))))"
    and r: "r = write_request (start_address s) c"
    by (auto simp: section_requests_def)
  from chunks_of_bounded [OF c] have b: "length c \<le> 2048" "c \<noteq> []"
    by simp_all
  from write_request_fields [OF b(1), of "start_address s"] b show ?thesis
    unfolding r by simp
qed

lemma section_requests_data:
  "concat (map xfer_data (section_requests s)) = concat (map enc_word (sec_data s))"
proof -
  have "map xfer_data (section_requests s) = chunks_of 2048 (concat (map enc_word (sec_data s)))"
    by (simp add: section_requests_def write_request_def comp_def)
  then show ?thesis
    by (simp add: concat_chunks_of)
qed

lemma spec_image_short_run:
  "transfer_image (\<lambda>k r. 3) (encode_image [spec_section] 0 4 (replicate 10200 0)) =
     (Fail ShortWrite, [(write_request 0 (concat (map enc_word [1, 1, 1, 1])), 3)])"
  by (simp add: transfer_image_def transfer_sections.simps write_chunks.simps read_word_def
      encode_image_def image_header_def enc_sections_def enc_section_def spec_section_def
      enc_word_def le32_def chunk_length_def max_write_size_def write_request_def vendor_out_def
      nth_append Let_def)

lemma spec_section_requests:
  "section_requests spec_section = [write_request 0 (concat (map enc_word [1, 1, 1, 1]))]"
  by (simp add: section_requests_def spec_section_def enc_word_def chunks_of_step)

subsection \<open>Every validated image is laid out as the format says\<close>

lemma enc_le32: "enc_word (le32 b0 b1 b2 b3) = [b0, b1, b2, b3]"
proof -
  let ?w = "le32 b0 b1 b2 b3"
  have 0: "(ucast ?w :: u8) = b0"
    unfolding le32_def by (rule bit_word_eqI) (auto simp: bit_simps dest: bit_imp_le_length)
  have 1: "(ucast (drop_bit 8 ?w) :: u8) = b1"
    unfolding le32_def by (rule bit_word_eqI) (auto simp: bit_simps dest: bit_imp_le_length)
  have 2: "(ucast (drop_bit 16 ?w) :: u8) = b2"
    unfolding le32_def by (rule bit_word_eqI) (auto simp: bit_simps dest: bit_imp_le_length)
  have 3: "(ucast (drop_bit 24 ?w) :: u8) = b3"
    unfolding le32_def by (rule bit_word_eqI) (auto simp: bit_simps dest: bit_imp_le_length)
  show ?thesis
    unfolding enc_word_def 0 1 2 3 ..
qed

lemma take4_drop:
  "k + 4 \<le> length xs \<Longrightarrow> take 4 (drop k xs) = [xs ! k, xs ! (k + 1), xs ! (k + 2), xs ! (k + 3)]"
proof -
  assume k: "k + 4 \<le> length xs"
  have a: "drop k xs = xs ! k # drop (Suc k) xs"
    using k by (simp add: Cons_nth_drop_Suc)
  have b: "drop (Suc k) xs = xs ! (k + 1) # drop (Suc (Suc k)) xs"
    using k by (simp add: Cons_nth_drop_Suc)
  have c: "drop (Suc (Suc k)) xs = xs ! (k + 2) # drop (Suc (Suc (Suc k))) xs"
    using k Cons_nth_drop_Suc [of "Suc (Suc k)" xs] by simp
  have d: "drop (Suc (Suc (Suc k))) xs = xs ! (k + 3) # drop (Suc (Suc (Suc (Suc k)))) xs"
    using k Cons_nth_drop_Suc [of "Suc (Suc (Suc k))" xs] by (simp add: numeral_3_eq_3)
  show ?thesis
    unfolding a b c d by simp
qed

lemma read_word_bytes:
  "read_word img i = Some w \<Longrightarrow> take 4 (drop (4 * i) img) = enc_word w \<and> 4 * i + 4 \<le> length img"
  by (auto simp: read_word_def enc_le32 take4_drop split: if_splits)

lemma sum_words_decode:
  "sum_words img c n acc = Ret s \<Longrightarrow>
   \<exists>ws. length ws = n \<and> take (4 * n) (drop (4 * c) img) = concat (map enc_word ws) \<and>
        s = acc + sum_list ws \<and> 4 * c + 4 * n \<le> max (length img) (4 * c)"
proof (induction n arbitrary: c acc)
  case 0
  then show ?case by simp
next
  case (Suc n)
  from Suc.prems obtain w where w: "read_word img c = Some w"
    and rest: "sum_words img (c + 1) n (acc + w) = Ret s"
    by (auto split: option.splits)
  from read_word_bytes [OF w] have b: "take 4 (drop (4 * c) img) = enc_word w"
    and len: "4 * c + 4 \<le> length img"
    by simp_all
  from Suc.IH [OF rest] obtain ws where ws: "length ws = n"
    "take (4 * n) (drop (4 * (c + 1)) img) = concat (map enc_word ws)"
    "s = acc + w + sum_list ws" "4 * (c + 1) + 4 * n \<le> max (length img) (4 * (c + 1))"
    by blast
  have "take (4 * Suc n) (drop (4 * c) img) =
        take 4 (drop (4 * c) img) @ take (4 * n) (drop 4 (drop (4 * c) img))"
    by (simp add: take_add)
  also have "\<dots> = enc_word w @ concat (map enc_word ws)"
    using ws(2) by (simp add: b add.commute)
  finally have t: "take (4 * Suc n) (drop (4 * c) img) = concat (map enc_word (w # ws))"
    by simp
  have "4 * c + 4 * Suc n \<le> max (length img) (4 * c)"
    using ws(4) len by simp
  with ws(1,3) t show ?case
    by (intro exI [of _ "w # ws"]) (simp add: add.assoc)
qed

lemma walk_sections_decode:
  "walk_sections img c acc = Ret (c', acc') \<Longrightarrow>
   \<exists>secs. well_formed secs \<and> c' = c + section_words secs + 1 \<and>
     take (4 * section_words secs) (drop (4 * c) img) = enc_sections secs \<and>
     read_word img (c + section_words secs) = Some 0 \<and> acc' = acc + word_sum secs"
proof (induction img c acc rule: walk_sections.induct)
  case (1 img current checksum)
  from "1.prems" obtain loadSz where l: "read_word img current = Some loadSz"
    by (subst (asm) walk_sections.simps) (auto split: option.splits)
  show ?case
  proof (cases "loadSz = 0")
    case True
    with "1.prems" l have "c' = current + 1" "acc' = checksum"
      by (subst (asm) walk_sections.simps, simp)+
    with True l show ?thesis
      by (intro exI [of _ "[]"])
         (simp add: well_formed_def section_words_def enc_sections_def word_sum_def)
  next
    case nz: False
    from "1.prems" l nz obtain secStart where s: "read_word img (current + 1) = Some secStart"
      by (subst (asm) walk_sections.simps) (auto split: option.splits)
    from "1.prems" l nz s have g: "\<not> length img \<le> 4 * (current + 2 + unat loadSz) + 8"
      by (subst (asm) walk_sections.simps) (auto split: if_splits)
    from "1.prems" l nz s g obtain checksum' where
      sw: "sum_words img (current + 2) (unat loadSz) checksum = Ret checksum'"
      by (subst (asm) walk_sections.simps) (auto split: outcome.splits)
    have step: "walk_sections img current checksum =
                walk_sections img (current + 2 + unat loadSz) checksum'"
      by (subst walk_sections.simps)
         (simp only: l s sw nz g option.case outcome.case if_False)
    with "1.prems" have rec: "walk_sections img (current + 2 + unat loadSz) checksum' = Ret (c', acc')"
      by simp
    from "1.IH" [OF l nz s g sw rec] obtain secs where secs: "well_formed secs"
      "c' = current + 2 + unat loadSz + section_words secs + 1"
      "take (4 * section_words secs) (drop (4 * (current + 2 + unat loadSz)) img) = enc_sections secs"
      "read_word img (current + 2 + unat loadSz + section_words secs) = Some 0"
      "acc' = checksum' + word_sum secs"
      by blast
    from sum_words_decode [OF sw] obtain ws where ws: "length ws = unat loadSz"
      "take (4 * unat loadSz) (drop (4 * (current + 2)) img) = concat (map enc_word ws)"
      "checksum' = checksum + sum_list ws"
      by blast
    let ?s = "\<lparr>start_address = secStart, sec_data = ws\<rparr>"
    let ?n = "unat loadSz"
    have n0: "0 < ?n"
      using nz by (simp add: unat_gt_0)
    have n32: "?n < 2 ^ 32"
      using unsigned_less [of loadSz] by simp
    have wf: "well_formed (?s # secs)"
      using secs(1) n0 n32 ws(1) by (auto simp: well_formed_def)
    have W: "section_words (?s # secs) = 2 + ?n + section_words secs"
      by (simp add: section_words_def ws(1))
    have b0: "take 4 (drop (4 * current) img) = enc_word loadSz"
      using read_word_bytes [OF l] by simp
    have b1: "take 4 (drop (4 * current + 4) img) = enc_word secStart"
      using read_word_bytes [OF s] by (simp add: algebra_simps)
    have b2: "take (4 * ?n) (drop (4 * current + 8) img) = concat (map enc_word ws)"
      using ws(2) by (simp add: algebra_simps)
    have b3: "take (4 * section_words secs) (drop (4 * current + 8 + 4 * ?n) img) = enc_sections secs"
      using secs(3) by (simp add: algebra_simps)
    have "take (4 * section_words (?s # secs)) (drop (4 * current) img) =
          take (4 + (4 + (4 * ?n + 4 * section_words secs))) (drop (4 * current) img)"
      by (simp add: W)
    also have "\<dots> = enc_word loadSz @ enc_word secStart @ concat (map enc_word ws) @ enc_sections secs"
      unfolding take_add drop_drop
      using b0 b1 b2 b3 by (simp add: add.commute add.left_commute)
    also have "\<dots> = enc_sections (?s # secs)"
      by (simp add: enc_sections_def enc_section_def ws(1))
    finally have t: "take (4 * section_words (?s # secs)) (drop (4 * current) img) =
                     enc_sections (?s # secs)" .
    have c: "c' = current + section_words (?s # secs) + 1"
      using secs(2) by (simp add: W)
    have r: "read_word img (current + section_words (?s # secs)) = Some 0"
      using secs(4) by (simp add: W add.assoc)
    have a: "acc' = checksum + word_sum (?s # secs)"
      using secs(5) ws(3) by (simp add: word_sum_def add.assoc)
    from wf c t r a show ?thesis
      by blast
  qed
qed

lemma validate_image_decode:
  assumes v: "validate_image img = Ret warned"
  shows "\<exists>secs entry ck trailing.
           img = encode_image secs entry ck trailing \<and> well_formed secs \<and>
           word_sum secs = ck \<and> warned = (trailing \<noteq> [])"
proof -
  from v have big: "\<not> length img < 10240"
    and hdr: "img ! 0 = 0x43" "img ! 1 = 0x59" "img ! 2 = 0x1c" "img ! 3 = 0xb0"
    by (auto simp: validate_image_def split: if_splits)
  from v big hdr obtain c' sum where w: "walk_sections img 1 0 = Ret (c', sum)"
    by (auto simp: validate_image_def split: outcome.splits)
  from v big hdr w obtain entry where e: "read_word img c' = Some entry"
    by (auto simp: validate_image_def split: option.splits)
  from v big hdr w e obtain ck where c: "read_word img (c' + 1) = Some ck"
    by (auto simp: validate_image_def split: option.splits)
  from v big hdr w e c have res: "sum = ck" "warned = (\<not> 4 * (c' + 2) = length img)"
    by (auto simp: validate_image_def split: if_splits)
  from walk_sections_decode [OF w] obtain secs where secs: "well_formed secs"
    "c' = 1 + section_words secs + 1"
    "take (4 * section_words secs) (drop (4 * 1) img) = enc_sections secs"
    "read_word img (1 + section_words secs) = Some 0" "sum = 0 + word_sum secs"
    by blast
  let ?W = "section_words secs"
  let ?trailing = "drop (4 + (4 * ?W + (4 + (4 + 4)))) img"
  have "take 4 (drop 0 img) = [img ! 0, img ! (0 + 1), img ! (0 + 2), img ! (0 + 3)]"
    by (rule take4_drop) (use big in simp)
  then have "take 4 img = [img ! 0, img ! 1, img ! 2, img ! 3]"
    by (simp only: drop_0 add_0)
  then have h: "take 4 img = image_header"
    unfolding hdr image_header_def .
  have b1: "take (4 * ?W) (drop 4 img) = enc_sections secs"
    using secs(3) by simp
  have b2: "take 4 (drop (4 + 4 * ?W) img) = enc_word 0"
    using read_word_bytes [OF secs(4)] by (simp add: algebra_simps)
  have b3: "take 4 (drop (4 + 4 * ?W + 4) img) = enc_word entry"
    using read_word_bytes [OF e] by (simp add: secs(2) algebra_simps)
  have b4: "take 4 (drop (4 + 4 * ?W + 4 + 4) img) = enc_word ck"
    and len: "4 * (c' + 1) + 4 \<le> length img"
    using read_word_bytes [OF c] by (simp_all add: secs(2) algebra_simps)
  have "img = take (4 + (4 * ?W + (4 + (4 + 4)))) img @ ?trailing"
    by simp
  also have "take (4 + (4 * ?W + (4 + (4 + 4)))) img =
             image_header @ enc_sections secs @ enc_word 0 @ enc_word entry @ enc_word ck"
    unfolding take_add drop_drop
    using h b1 b2 b3 b4 by (simp add: add.commute add.left_commute)
  finally have img: "img = encode_image secs entry ck ?trailing"
    by (simp add: encode_image_def)
  have "warned = (?trailing \<noteq> [])"
    using res(2) len by (auto simp: secs(2))
  with img secs(1,5) res(1) show ?thesis
    by (intro exI [of _ secs] exI [of _ entry] exI [of _ ck] exI [of _ ?trailing]) simp
qed

lemma transferable_small:
  assumes wf: "well_formed secs"
    and small: "length (encode_image secs entry ck trailing) < 2 ^ 32"
  shows "transferable secs"
proof -
  have "length (sec_data s) < 2 ^ 30" if s: "s \<in> set secs" for s
  proof -
    have "2 + length (sec_data s) \<in> set (map (\<lambda>s. 2 + length (sec_data s)) secs)"
      using s by auto
    then have "2 + length (sec_data s) \<le> section_words secs"
      using member_le_sum_list [of "2 + length (sec_data s)" "map (\<lambda>s. 2 + length (sec_data s)) secs"]
      by (simp add: section_words_def)
    moreover have "4 * section_words secs < 2 ^ 32"
      using small by (simp add: length_encode_image)
    ultimately show ?thesis by simp
  qed
  with wf show ?thesis
    by (auto simp: well_formed_def transferable_def list_all_iff)
qed

lemma validated_image_transferable:
  assumes "validate_image img = Ret warned" and "length img < 2 ^ 32"
  shows "\<exists>secs entry ck trailing.
           img = encode_image secs entry ck trailing \<and> transferable secs \<and> word_sum secs = ck"
proof -
  from validate_image_decode [OF assms(1)] obtain secs entry ck trailing where
    d: "img = encode_image secs entry ck trailing" "well_formed secs" "word_sum secs = ck"
    by blast
  from transferable_small [OF d(2)] assms(2) d(1) have "transferable secs"
    by simp
  with d show ?thesis by blast
qed

lemma transfer_sections_end:
  "length pre = 4 * c \<Longrightarrow> well_formed secs \<Longrightarrow>
   transfer_sections dev (pre @ enc_sections secs @ enc_word 0 @ rest) c log = (Ret cur, log') \<Longrightarrow>
   cur = c + section_words secs + 1"
proof (induction secs arbitrary: pre c log)
  case Nil
  have "read_word (pre @ enc_word 0 @ rest) c = Some 0"
    by (rule read_word_enc [OF Nil.prems(1)])
  with Nil.prems(3) show ?case
    by (subst (asm) transfer_sections.simps) (simp add: enc_sections_def section_words_def)
next
  case (Cons s secs)
  let ?n = "length (sec_data s)"
  let ?img = "pre @ enc_sections (s # secs) @ enc_word 0 @ rest"
  have wf: "0 < ?n" "?n < 2 ^ 32" "well_formed secs"
    using Cons.prems(2) by (simp_all add: well_formed_def)
  have split: "?img = pre @ enc_word (of_nat ?n) @ enc_word (start_address s) @
                 (concat (map enc_word (sec_data s)) @ enc_sections secs @ enc_word 0 @ rest)"
    by (simp add: enc_sections_def enc_section_def)
  have split': "?img = (pre @ enc_section s) @ enc_sections secs @ enc_word 0 @ rest"
    by (simp add: enc_sections_def)
  have len: "length (pre @ enc_section s) = 4 * (c + 2 + ?n)"
    using Cons.prems(1) by simp
  have r0: "read_word ?img c = Some (of_nat ?n)"
    unfolding split by (rule read_word_enc [OF Cons.prems(1)])
  have r1: "read_word ?img (c + 1) = Some (start_address s)"
    using read_word_enc [of "pre @ enc_word (of_nat ?n)" "c + 1" "start_address s"] Cons.prems(1)
    unfolding split by simp
  obtain r l1 where wc:
    "write_chunks dev ?img (start_address s) (4 * (c + 2)) (unat ((of_nat ?n :: u32) * 4)) log = (r, l1)"
    by (cases "write_chunks dev ?img (start_address s) (4 * (c + 2)) (unat ((of_nat ?n :: u32) * 4)) log")
  have unf: "transfer_sections dev ?img c log =
        (case r of Ret u \<Rightarrow> transfer_sections dev ?img (c + 2 + ?n) l1
         | Fail e \<Rightarrow> (Fail e, l1) | Undefined u \<Rightarrow> (Undefined u, l1))"
    by (subst transfer_sections.simps)
       (simp only: r0 r1 wc load_size_nonzero [OF wf(1,2)] unat_load_size [OF wf(2)]
          option.case prod.case if_False split: outcome.split)
  show ?case
  proof (cases r)
    case (Ret u)
    with unf Cons.prems(3) have "transfer_sections dev ?img (c + 2 + ?n) l1 = (Ret cur, log')"
      by simp
    then have "cur = c + 2 + ?n + section_words secs + 1"
      unfolding split' by (rule Cons.IH [OF len wf(3)])
    then show ?thesis
      by (simp add: section_words_def)
  next
    case (Fail e)
    with unf Cons.prems(3) show ?thesis by simp
  next
    case (Undefined u)
    with unf Cons.prems(3) show ?thesis by simp
  qed
qed

lemma transfer_validated_image:
  assumes v: "validate_image img = Ret warned"
    and ts: "transfer_sections dev img 1 [] = (Ret current, log)"
  shows "\<exists>secs entry ck trailing.
           img = encode_image secs entry ck trailing \<and> well_formed secs \<and>
           transfer_image dev img =
             (Ret (dev (length log) (write_request entry []) < 0),
              log @ [(write_request entry [], dev (length log) (write_request entry []))])"
proof -
  from validate_image_decode [OF v] obtain secs entry ck trailing where
    d: "img = encode_image secs entry ck trailing" "well_formed secs"
    by blast
  let ?W = "section_words secs"
  have img: "img = image_header @ enc_sections secs @ enc_word 0 @ (enc_word entry @ enc_word ck @ trailing)"
    by (simp add: d(1) encode_image_def)
  have cur: "current = 1 + ?W + 1"
    using ts unfolding img
    by (rule transfer_sections_end [rotated 2]) (simp_all add: image_header_def d(2))
  have e: "read_word img (1 + ?W + 1) = Some entry"
    using read_word_enc [of "image_header @ enc_sections secs @ enc_word 0" "1 + ?W + 1" entry
        "enc_word ck @ trailing"]
    by (simp add: d(1) encode_image_def image_header_def)
  have c: "read_word img (1 + ?W + 1 + 1) = Some ck"
    using read_word_enc [of "image_header @ enc_sections secs @ enc_word 0 @ enc_word entry"
        "1 + ?W + 1 + 1" ck trailing]
    by (simp add: d(1) encode_image_def image_header_def)
  have jump: "\<lparr>bmRequestType = vendor_out, bRequest = 0xa0, wValue = ucast (entry AND 0xffff),
                wIndex = ucast (drop_bit 16 entry), xfer_data = [], wLength = 0,
                timeout = 5000\<rparr> = write_request entry []"
    by (simp add: write_request_def vendor_out_def low16)
  have "transfer_image dev img =
             (Ret (dev (length log) (write_request entry []) < 0),
              log @ [(write_request entry [], dev (length log) (write_request entry []))])"
    unfolding transfer_image_def ts cur
    by (simp only: e c jump outcome.case prod.case option.case Let_def)
  with d show ?thesis by blast
qed

subsection \<open>What the transfer writes\<close>

lemma spec_image_valid: "validate_image spec_image = Ret True \<and> length spec_image = 10240"
proof -
  have wf: "well_formed [spec_section]"
    by (simp add: well_formed_def spec_section_def)
  have len: "length spec_image = 10240"
    by (simp add: spec_image_def length_encode_image section_words_def spec_section_def)
  then have big: "10240 \<le> length (encode_image [spec_section] 0 4 (replicate 10200 0))"
    by (simp add: spec_image_def)
  have "word_sum [spec_section] = 4"
    by (simp add: word_sum_def spec_section_def)
  then show ?thesis
    using validate_encode_image [OF wf big] len by (simp add: spec_image_def)
qed

text \<open>
  For an image laid out from well-formed sections and smaller than 4 GiB, as every
  validated image of that size is, and a device that takes every write in full,
  \<open>transfer_image\<close> issues the requests of the sections in order and then one request
  without data at the entry point. The requests of a section carry its data in order, in
  pieces of at most 2048 bytes; each is a vendor request to the device (0x40, request
  0xa0) with \<open>wValue\<close> the low 16 bits and \<open>wIndex\<close> the high 16 bits of the section's start
  address. For any device and any image, when a request was answered with fewer bytes
  than its length, \<open>transfer_image\<close> fails with \<open>ShortWrite\<close>.
\<close>

lemma transfer_image_requests:
  assumes wf: "well_formed secs"
    and small: "length (encode_image secs entry ck trailing) < 2 ^ 32"
    and acc: "accepts dev (length (concat (map section_requests secs)))"
  shows "map fst (snd (transfer_image dev (encode_image secs entry ck trailing))) =
           concat (map section_requests secs) @ [write_request entry []] \<and>
         (\<forall>s\<in>set secs.
            concat (map xfer_data (section_requests s)) = concat (map enc_word (sec_data s)) \<and>
            (\<forall>r\<in>set (section_requests s).
               bmRequestType r = 0x40 \<and> bRequest r = 0xa0 \<and>
               unat (wValue r) = unat (start_address s) mod 65536 \<and>
               unat (wIndex r) = unat (start_address s) div 65536 \<and>
               length (xfer_data r) \<le> 2048 \<and> unat (wLength r) = length (xfer_data r))) \<and>
         bmRequestType (write_request entry []) = 0x40 \<and>
         bRequest (write_request entry []) = 0xa0 \<and>
         unat (wValue (write_request entry [])) = unat entry mod 65536 \<and>
         unat (wIndex (write_request entry [])) = unat entry div 65536 \<and>
         xfer_data (write_request entry []) = [] \<and> wLength (write_request entry []) = 0 \<and>
         ((\<exists>p\<in>set (snd (transfer_image dev' img')). short_write p) \<longrightarrow>
            fst (transfer_image dev' img') = Fail ShortWrite) \<and>
         (validate_image img' = Ret warned \<longrightarrow>
            (\<exists>secs' entry' ck' trailing'.
               img' = encode_image secs' entry' ck' trailing' \<and> well_formed secs' \<and>
               word_sum secs' = ck'))"
proof -
  have tr: "transferable secs"
    by (rule transferable_small [OF wf small])
  have acc': "accepts dev (length (image_requests secs))"
    using acc by (simp add: image_requests_def)
  have "map fst (map accepted xs) = xs" for xs
    by (induction xs) (simp_all add: accepted_def)
  then have a: "map fst (snd (transfer_image dev (encode_image secs entry ck trailing))) =
           concat (map section_requests secs) @ [write_request entry []]"
    by (simp add: transfer_encode_image [OF tr acc'] image_requests_def)
  have b: "\<forall>s\<in>set secs.
            concat (map xfer_data (section_requests s)) = concat (map enc_word (sec_data s)) \<and>
            (\<forall>r\<in>set (section_requests s).
               bmRequestType r = 0x40 \<and> bRequest r = 0xa0 \<and>
               unat (wValue r) = unat (start_address s) mod 65536 \<and>
               unat (wIndex r) = unat (start_address s) div 65536 \<and>
               length (xfer_data r) \<le> 2048 \<and> unat (wLength r) = length (xfer_data r))"
    using section_requests_fields section_requests_data by blast
  have c: "bmRequestType (write_request entry []) = 0x40 \<and>
         bRequest (write_request entry []) = 0xa0 \<and>
         unat (wValue (write_request entry [])) = unat entry mod 65536 \<and>
         unat (wIndex (write_request entry [])) = unat entry div 65536 \<and>
         xfer_data (write_request entry []) = [] \<and> wLength (write_request entry []) = 0"
    using write_request_fields [of "[]" entry] by (simp add: write_request_def)
  have d: "(\<exists>p\<in>set (snd (transfer_image dev' img')). short_write p) \<longrightarrow>
            fst (transfer_image dev' img') = Fail ShortWrite"
    using transfer_image_short by blast
  have e: "validate_image img' = Ret warned \<longrightarrow>
            (\<exists>secs' entry' ck' trailing'.
               img' = encode_image secs' entry' ck' trailing' \<and> well_formed secs' \<and>
               word_sum secs' = ck')"
    using validate_image_decode by blast
  from a b c d e show ?thesis
    by (intro conjI) blast+
qed

lemma transfer_image_requests_example:
  "well_formed [spec_section] \<and> spec_image = encode_image [spec_section] 0 4 (replicate 10200 0) \<and>
   validate_image spec_image = Ret True \<and> length spec_image = 10240 \<and>
   accepts (\<lambda>k r. uint (wLength r)) (length (concat (map section_requests [spec_section]))) \<and>
   map fst (snd (transfer_image (\<lambda>k r. uint (wLength r)) spec_image)) =
     [write_request 0 (concat (map enc_word [1, 1, 1, 1])), write_request 0 []] \<and>
   (\<exists>p\<in>set (snd (transfer_image (\<lambda>k r. 3) spec_image)). short_write p) \<and>
   fst (transfer_image (\<lambda>k r. 3) spec_image) = Fail ShortWrite"
proof -
  have wf: "well_formed [spec_section]"
    by (simp add: well_formed_def spec_section_def)
  have small: "length (encode_image [spec_section] 0 4 (replicate 10200 0)) < 2 ^ 32"
    using spec_image_valid by (simp add: spec_image_def)
  have acc: "accepts (\<lambda>k r. uint (wLength r)) (length (concat (map section_requests [spec_section])))"
    by (simp add: accepts_def)
  have sh: "\<exists>p\<in>set (snd (transfer_image (\<lambda>k r. 3) spec_image)). short_write p"
    by (simp add: spec_image_def spec_image_short_run short_write_def write_request_def enc_word_def)
  note th = transfer_image_requests [OF wf small acc, where dev' = "\<lambda>k r. 3"
      and img' = spec_image]
  from th have req: "map fst (snd (transfer_image (\<lambda>k r. uint (wLength r)) spec_image)) =
     [write_request 0 (concat (map enc_word [1, 1, 1, 1])), write_request 0 []]"
    by (simp add: spec_section_requests spec_image_def)
  from th sh have f: "fst (transfer_image (\<lambda>k r. 3) spec_image) = Fail ShortWrite"
    by blast
  show ?thesis
    using wf acc req sh f spec_image_valid by (simp add: spec_image_def)
qed

lemma huge_section_facts:
  "length (sec_data huge_section) = 2 ^ 30" "start_address huge_section = 0"
  "sum_list (sec_data huge_section) = 0" "sec_data huge_section \<noteq> []"
  by (simp_all add: huge_section_def sum_list_replicate)

lemma huge_image_valid: "validate_image huge_image = Ret False"
proof -
  have wf: "well_formed [huge_section]"
    by (simp add: well_formed_def huge_section_facts)
  have big: "10240 \<le> length (encode_image [huge_section] 0 0 [])"
    by (simp add: length_encode_image section_words_def huge_section_facts)
  show ?thesis
    unfolding huge_image_def
    by (simp add: validate_encode_image [OF wf big] word_sum_def huge_section_facts)
qed

text \<open>
  A section of \<open>2 ^ 30\<close> words: its load size is not zero, but \<open>loadSz * 4\<close> is 0 in 32
  bits, so the loop over its data does not run and \<open>transfer_image\<close> goes on to the word
  after the section without a write.
\<close>

lemma transfer_sections_wrapped:
  assumes pre: "length pre = 4 * c"
    and n: "length (sec_data s) = 2 ^ 30"
  shows "transfer_sections dev (pre @ enc_section s @ enc_word 0 @ rest) c log =
         (Ret (c + 2 + 2 ^ 30 + 1), log)"
proof -
  let ?img = "pre @ enc_section s @ enc_word 0 @ rest"
  have r0: "read_word ?img c = Some (of_nat (2 ^ 30))"
    using read_word_enc [OF pre] by (simp add: enc_section_def n)
  have r1: "read_word ?img (c + 1) = Some (start_address s)"
    using read_word_enc [of "pre @ enc_word (of_nat (2 ^ 30))" "c + 1" "start_address s"] pre
    by (simp add: enc_section_def n)
  have r2: "read_word ?img (c + 2 + 2 ^ 30) = Some 0"
    using read_word_enc [of "pre @ enc_section s" "c + 2 + 2 ^ 30" 0 rest] pre
    by (simp add: n)
  have nz: "(of_nat (2 ^ 30) :: u32) \<noteq> 0"
    by simp
  have w: "unat ((of_nat (2 ^ 30) :: u32) * 4) = 0"
    by simp
  have u: "unat (of_nat (2 ^ 30) :: u32) = 2 ^ 30"
    by simp
  have wc: "write_chunks dev ?img (start_address s) (4 * (c + 2)) 0 log = (Ret (), log)"
    by (subst write_chunks.simps) simp
  have fin: "transfer_sections dev ?img (c + 2 + 2 ^ 30) log = (Ret (c + 2 + 2 ^ 30 + 1), log)"
    by (subst transfer_sections.simps) (simp only: r2 option.case simp_thms if_True)
  show ?thesis
    by (subst transfer_sections.simps)
       (simp only: r0 r1 w u wc nz fin option.case outcome.case prod.case if_False)
qed

text \<open>
  C7: the image \<open>huge_image\<close> of 4 GiB and 24 bytes passes \<open>validate_image\<close>, and its one
  section has a payload of \<open>2 ^ 32\<close> bytes. On a device that takes every write in full,
  \<open>transfer_image\<close> returns 0 after a single control transfer, the one without data at
  the entry point: no byte of the section's payload is written.
\<close>

theorem transfer_image_drops_wrapped_section:
  "length huge_image = 2 ^ 32 + 24 \<and>
   validate_image huge_image = Ret False \<and>
   length (concat (map xfer_data (section_requests huge_section))) = 2 ^ 32 \<and>
   transfer_image (\<lambda>k r. uint (wLength r)) huge_image = (Ret False, [(write_request 0 [], 0)])"
proof -
  have l: "length huge_image = 2 ^ 32 + 24"
    by (simp add: huge_image_def length_encode_image section_words_def huge_section_facts)
  have img: "huge_image = image_header @ enc_section huge_section @ enc_word 0 @
                          (enc_word 0 @ enc_word 0 @ [])"
    by (simp add: huge_image_def encode_image_def enc_sections_def)
  have ts: "transfer_sections dev huge_image 1 [] = (Ret (1 + 2 + 2 ^ 30 + 1), [])" for dev
    unfolding img
    by (rule transfer_sections_wrapped) (simp_all add: image_header_def huge_section_facts)
  have e: "read_word huge_image (1 + 2 + 2 ^ 30 + 1) = Some 0"
    using read_word_enc [of "image_header @ enc_section huge_section @ enc_word 0"
        "1 + 2 + 2 ^ 30 + 1" 0 "enc_word 0 @ []"]
    by (simp add: img image_header_def huge_section_facts)
  have k: "read_word huge_image (1 + 2 + 2 ^ 30 + 1 + 1) = Some 0"
    using read_word_enc [of "image_header @ enc_section huge_section @ enc_word 0 @ enc_word 0"
        "1 + 2 + 2 ^ 30 + 1 + 1" 0 "[]"]
    by (simp add: img image_header_def huge_section_facts)
  have t: "transfer_image (\<lambda>k r. uint (wLength r)) huge_image =
           (Ret False, [(write_request 0 [], 0)])"
    unfolding transfer_image_def ts
    by (simp only: e k prod.case outcome.case option.case Let_def)
       (simp add: write_request_def vendor_out_def)
  have s: "length (concat (map xfer_data (section_requests huge_section))) = 2 ^ 32"
    by (simp add: section_requests_data huge_section_facts)
  show ?thesis
    using l huge_image_valid s t by simp
qed

text \<open>
  C8: a failure of the last control transfer is not an error of \<open>transfer_image\<close>. On a
  validated image whose section writes all succeed, the result is the return value 0
  whatever the last transfer returns; a negative value only sets the warning. Every
  error that \<open>transfer_image\<close> returns is the error of a section write.
\<close>

theorem transfer_image_jump_not_fatal:
  "(validate_image img = Ret warned \<and> transfer_sections dev img 1 [] = (Ret current, log) \<longrightarrow>
      (\<exists>entry. transfer_image dev img =
         (Ret (dev (length log) (write_request entry []) < 0),
          log @ [(write_request entry [], dev (length log) (write_request entry []))]))) \<and>
   (well_formed secs \<and> length (encode_image secs entry ck trailing) < 2 ^ 32 \<and>
    accepts dev' (length (concat (map section_requests secs))) \<longrightarrow>
      fst (transfer_image dev' (encode_image secs entry ck trailing)) =
        Ret (dev' (length (concat (map section_requests secs))) (write_request entry []) < 0)) \<and>
   (\<forall>e. fst (transfer_image dev img) = Fail e \<longrightarrow> fst (transfer_sections dev img 1 []) = Fail e)"
proof (intro conjI impI allI)
  assume h: "validate_image img = Ret warned \<and> transfer_sections dev img 1 [] = (Ret current, log)"
  then have v: "validate_image img = Ret warned"
    and ts: "transfer_sections dev img 1 [] = (Ret current, log)"
    by simp_all
  from transfer_validated_image [OF v ts]
  show "\<exists>entry. transfer_image dev img =
         (Ret (dev (length log) (write_request entry []) < 0),
          log @ [(write_request entry [], dev (length log) (write_request entry []))])"
    by blast
next
  assume h: "well_formed secs \<and> length (encode_image secs entry ck trailing) < 2 ^ 32 \<and>
    accepts dev' (length (concat (map section_requests secs)))"
  then have tr: "transferable secs"
    using transferable_small by blast
  from h have acc: "accepts dev' (length (image_requests secs))"
    by (simp add: image_requests_def)
  show "fst (transfer_image dev' (encode_image secs entry ck trailing)) =
        Ret (dev' (length (concat (map section_requests secs))) (write_request entry []) < 0)"
    by (simp add: transfer_encode_image [OF tr acc] image_requests_def)
next
  fix e
  assume f: "fst (transfer_image dev img) = Fail e"
  obtain r l1 where ts: "transfer_sections dev img 1 [] = (r, l1)"
    by (cases "transfer_sections dev img 1 []")
  from f show "fst (transfer_sections dev img 1 []) = Fail e"
    unfolding transfer_image_def ts
    by (cases r) (auto simp: Let_def split: option.splits)
qed

theorem transfer_image_jump_not_fatal_witness:
  "validate_image spec_image = Ret True \<and>
   transfer_sections (\<lambda>k r. if k < 1 then uint (wLength r) else - 4) spec_image 1 [] =
     (Ret 8, [(write_request 0 (concat (map enc_word [1, 1, 1, 1])), 16)]) \<and>
   transfer_image (\<lambda>k r. if k < 1 then uint (wLength r) else - 4) spec_image =
     (Ret True, [(write_request 0 (concat (map enc_word [1, 1, 1, 1])), 16),
                 (write_request 0 [], - 4)]) \<and>
   fst (transfer_image (\<lambda>k r. 3) spec_image) = Fail ShortWrite \<and>
   fst (transfer_sections (\<lambda>k r. 3) spec_image 1 []) = Fail ShortWrite"
proof -
  let ?dev = "\<lambda>(k :: nat) (r :: ctrl_xfer). if k < 1 then uint (wLength r) else - 4"
  have v: "validate_image spec_image = Ret True"
    using spec_image_valid by simp
  have ts: "transfer_sections ?dev spec_image 1 [] =
     (Ret 8, [(write_request 0 (concat (map enc_word [1, 1, 1, 1])), 16)])"
    by (simp add: spec_image_def transfer_sections.simps write_chunks.simps read_word_def
      encode_image_def image_header_def enc_sections_def enc_section_def spec_section_def
      enc_word_def le32_def chunk_length_def max_write_size_def write_request_def vendor_out_def
      nth_append Let_def)
  note th = transfer_image_jump_not_fatal [where img = spec_image and warned = True]
  from th [where dev = ?dev] v ts obtain entry where
    "transfer_image ?dev spec_image =
       (Ret (?dev (length [(write_request 0 (concat (map enc_word [1, 1, 1, 1])), 16 :: int)])
               (write_request entry []) < 0),
        [(write_request 0 (concat (map enc_word [1, 1, 1, 1])), 16)] @
        [(write_request entry [],
          ?dev (length [(write_request 0 (concat (map enc_word [1, 1, 1, 1])), 16 :: int)])
               (write_request entry []))])"
    by blast
  then have ok: "fst (transfer_image ?dev spec_image) = Ret True"
    by simp
  have run: "transfer_image ?dev spec_image =
     (Ret True, [(write_request 0 (concat (map enc_word [1, 1, 1, 1])), 16),
                 (write_request 0 [], - 4)])"
    unfolding transfer_image_def ts
    by (simp add: spec_image_def read_word_def
      encode_image_def image_header_def enc_sections_def enc_section_def spec_section_def
      enc_word_def le32_def write_request_def vendor_out_def nth_append Let_def)
  have f: "fst (transfer_image (\<lambda>k r. 3) spec_image) = Fail ShortWrite"
    by (simp add: spec_image_def spec_image_short_run)
  with th [where dev = "\<lambda>k r. 3"] have fs: "fst (transfer_sections (\<lambda>k r. 3) spec_image 1 []) = Fail ShortWrite"
    by blast
  show ?thesis
    using v ts ok run f fs by simp
qed

section \<open>Properties of the ADC streaming engine\<close>

text \<open>
  C5: \<open>adc_start\<close> on an engine whose status is not READY returns -1 and changes nothing:
  the engine, with its counter, is the one it was given, and no call of libusb is made.
\<close>

theorem adc_start_not_ready:
  "status this \<noteq> ADC_STATUS_READY \<Longrightarrow> adc_start h (this, trace) = (- 1, this, trace)"
  by (simp add: adc_start_def)

theorem adc_start_not_ready_witness:
  "status (sample_engine ADC_STATUS_STREAMING 4) \<noteq> ADC_STATUS_READY \<and>
   adc_start quiet_host (sample_engine ADC_STATUS_STREAMING 4, [Submit 0 0]) =
     (- 1, sample_engine ADC_STATUS_STREAMING 4, [Submit 0 0])"
  using adc_start_not_ready [of "sample_engine ADC_STATUS_STREAMING 4" quiet_host "[Submit 0 0]"]
  by (simp add: sample_engine_def)

lemma cancel_loop_callback_trace:
  "cancel_loop_callback h t n trace =
     trace @ map (\<lambda>k. Cancel t (cancel_ret h k t)) [length trace..<length trace + n]"
proof (induction n arbitrary: trace)
  case 0
  then show ?case by simp
next
  case (Suc n)
  have "[length trace..<length trace + Suc n] =
        length trace # [length (trace @ [Cancel t (cancel_ret h (length trace) t)])..<
          length (trace @ [Cancel t (cancel_ret h (length trace) t)]) + n]"
    by (simp add: upt_conv_Cons)
  then show ?case
    by (simp add: Suc.IH)
qed

lemma callback_failed_eq:
  "callback_failed h (this, trace) t =
     (this\<lparr>status := ADC_STATUS_FAILED, active_transfers := active_transfers this - 1\<rparr>,
      trace @ map (\<lambda>k. Cancel t (cancel_ret h k t))
                [length trace..<length trace + unat (num_frames this)])"
  by (simp add: callback_failed_def cancel_loop_callback_trace)

lemma callback_extends:
  "adc_read_async_callback h (this, trace) ev = (this', trace') \<Longrightarrow>
   \<exists>new. trace' = trace @ new \<and>
     (status this = ADC_STATUS_FAILED \<or> (\<exists>e\<in>set new. stop_failure e) \<longrightarrow>
        status this' = ADC_STATUS_FAILED)"
  by (cases "xfer_status ev")
     (auto simp: adc_read_async_callback_def callback_failed_eq Let_def stop_failure_def
        split: if_splits)

lemma dispatch_all_extends:
  "dispatch_all h (this, trace) evs = (this', trace') \<Longrightarrow>
   \<exists>new. trace' = trace @ new \<and>
     (status this = ADC_STATUS_FAILED \<or> (\<exists>e\<in>set new. stop_failure e) \<longrightarrow>
        status this' = ADC_STATUS_FAILED)"
proof (induction evs arbitrary: this trace)
  case Nil
  then show ?case by (simp add: dispatch_all_def)
next
  case (Cons ev evs)
  obtain this1 trace1 where c: "adc_read_async_callback h (this, trace) ev = (this1, trace1)"
    by (cases "adc_read_async_callback h (this, trace) ev")
  from callback_extends [OF c] obtain new1 where n1: "trace1 = trace @ new1"
    "status this = ADC_STATUS_FAILED \<or> (\<exists>e\<in>set new1. stop_failure e) \<longrightarrow>
       status this1 = ADC_STATUS_FAILED"
    by blast
  from Cons.prems have "dispatch_all h (this1, trace1) evs = (this', trace')"
    by (simp add: dispatch_all_def c)
  from Cons.IH [OF this] obtain new2 where n2: "trace' = trace1 @ new2"
    "status this1 = ADC_STATUS_FAILED \<or> (\<exists>e\<in>set new2. stop_failure e) \<longrightarrow>
       status this' = ADC_STATUS_FAILED"
    by blast
  have "trace' = trace @ (new1 @ new2)"
    using n1(1) n2(1) by simp
  moreover have "status this = ADC_STATUS_FAILED \<or> (\<exists>e\<in>set (new1 @ new2). stop_failure e) \<longrightarrow>
       status this' = ADC_STATUS_FAILED"
    using n1(2) n2(2) by auto
  ultimately show ?case by blast
qed

lemma cancel_loop_stop_extends:
  "cancel_loop_stop h i n (this, trace) = (this', trace') \<Longrightarrow>
   \<exists>new. trace' = trace @ new \<and>
     (status this = ADC_STATUS_FAILED \<or> (\<exists>e\<in>set new. stop_failure e) \<longrightarrow>
        status this' = ADC_STATUS_FAILED)"
proof (induction n arbitrary: i this trace)
  case 0
  then show ?case by simp
next
  case (Suc n)
  let ?ret = "cancel_ret h (length trace) i"
  let ?this1 = "if ?ret < 0 \<and> ?ret \<noteq> LIBUSB_ERROR_NOT_FOUND
                then this\<lparr>status := ADC_STATUS_FAILED\<rparr> else this"
  from Suc.prems have "cancel_loop_stop h (i + 1) n (?this1, trace @ [Cancel i ?ret]) = (this', trace')"
    by (simp add: Let_def split: if_splits)
  from Suc.IH [OF this] obtain new2 where n2: "trace' = (trace @ [Cancel i ?ret]) @ new2"
    "status ?this1 = ADC_STATUS_FAILED \<or> (\<exists>e\<in>set new2. stop_failure e) \<longrightarrow>
       status this' = ADC_STATUS_FAILED"
    by blast
  have "trace' = trace @ (Cancel i ?ret # new2)"
    using n2(1) by simp
  moreover have "status this = ADC_STATUS_FAILED \<or> (\<exists>e\<in>set (Cancel i ?ret # new2). stop_failure e) \<longrightarrow>
       status this' = ADC_STATUS_FAILED"
    using n2(2) by (auto simp: stop_failure_def)
  ultimately show ?case by blast
qed

text \<open>
  C10: \<open>adc_stop\<close> returns 0 in every case. When one of its cancellations returned an
  error other than "not found", or its pass of event handling returned an error, the
  engine is FAILED when \<open>adc_stop\<close> returns, and the return value is still 0.
\<close>

theorem adc_stop_returns_zero:
  "fst (adc_stop h (this, trace)) = 0 \<and>
   (\<forall>e\<in>set (drop (length trace) (snd (snd (adc_stop h (this, trace))))).
      stop_failure e \<longrightarrow> status (fst (snd (adc_stop h (this, trace)))) = ADC_STATUS_FAILED)"
proof -
  let ?this0 = "this\<lparr>status := ADC_STATUS_CANCELLED\<rparr>"
  obtain this1 trace1 where c1:
    "cancel_loop_stop h 0 (unat (num_frames this)) (?this0, trace) = (this1, trace1)"
    by (cases "cancel_loop_stop h 0 (unat (num_frames this)) (?this0, trace)")
  obtain this2 trace2 where c2:
    "dispatch_all h (this1, trace1) (pending h (length trace1)) = (this2, trace2)"
    by (cases "dispatch_all h (this1, trace1) (pending h (length trace1))")
  let ?ret = "events_ret h (length trace1)"
  have stop: "adc_stop h (this, trace) =
        (0, if ?ret < 0 then this2\<lparr>status := ADC_STATUS_FAILED\<rparr> else this2,
         trace2 @ [HandleEvents ?ret])"
    by (simp add: adc_stop_def c1 c2 Let_def)
  from cancel_loop_stop_extends [OF c1] obtain new1 where n1: "trace1 = trace @ new1"
    "(\<exists>e\<in>set new1. stop_failure e) \<longrightarrow> status this1 = ADC_STATUS_FAILED"
    by auto
  from dispatch_all_extends [OF c2] obtain new2 where n2: "trace2 = trace1 @ new2"
    "status this1 = ADC_STATUS_FAILED \<or> (\<exists>e\<in>set new2. stop_failure e) \<longrightarrow>
       status this2 = ADC_STATUS_FAILED"
    by blast
  have new: "drop (length trace) (trace2 @ [HandleEvents ?ret]) = new1 @ new2 @ [HandleEvents ?ret]"
    using n1(1) n2(1) by simp
  have r: "fst (adc_stop h (this, trace)) = 0"
    "snd (snd (adc_stop h (this, trace))) = trace2 @ [HandleEvents ?ret]"
    "status (fst (snd (adc_stop h (this, trace)))) =
       (if ?ret < 0 then ADC_STATUS_FAILED else status this2)"
    by (simp_all add: stop)
  have "\<forall>e\<in>set (new1 @ new2 @ [HandleEvents ?ret]).
          stop_failure e \<longrightarrow> (if ?ret < 0 then ADC_STATUS_FAILED else status this2) = ADC_STATUS_FAILED"
    using n1(2) n2(2) by (auto simp: stop_failure_def)
  then show ?thesis
    unfolding r new by simp
qed

lemma cancel_loop_stop_unroll:
  "0 < n \<Longrightarrow>
   cancel_loop_stop h i n (this, trace) =
     (let ret = cancel_ret h (length trace) i in
      if ret < 0 \<and> ret \<noteq> LIBUSB_ERROR_NOT_FOUND
      then cancel_loop_stop h (i + 1) (n - 1)
             (this\<lparr>status := ADC_STATUS_FAILED\<rparr>, trace @ [Cancel i ret])
      else cancel_loop_stop h (i + 1) (n - 1) (this, trace @ [Cancel i ret]))"
  by (cases n) (simp_all add: Let_def)

lemma stop_run:
  "adc_stop cancel_failing_host (sample_engine ADC_STATUS_STREAMING 4, []) =
     (0, sample_engine ADC_STATUS_FAILED 4,
      [Cancel 0 0, Cancel 1 0, Cancel 2 (- 1), Cancel 3 (- 5), HandleEvents 0])"
  by (simp add: adc_stop_def sample_engine_def cancel_failing_host_def Let_def
      cancel_loop_stop_unroll dispatch_all_def LIBUSB_ERROR_NOT_FOUND_def)

theorem adc_stop_returns_zero_witness:
  "stop_failure (Cancel 2 (- 1)) \<and>
   adc_stop cancel_failing_host (sample_engine ADC_STATUS_STREAMING 4, []) =
     (0, sample_engine ADC_STATUS_FAILED 4,
      [Cancel 0 0, Cancel 1 0, Cancel 2 (- 1), Cancel 3 (- 5), HandleEvents 0]) \<and>
   fst (adc_stop cancel_failing_host (sample_engine ADC_STATUS_STREAMING 4, [])) = 0 \<and>
   status (fst (snd (adc_stop cancel_failing_host (sample_engine ADC_STATUS_STREAMING 4, [])))) =
     ADC_STATUS_FAILED"
proof -
  let ?r = "adc_stop cancel_failing_host (sample_engine ADC_STATUS_STREAMING 4, [])"
  have f: "stop_failure (Cancel 2 (- 1))"
    by (simp add: stop_failure_def LIBUSB_ERROR_NOT_FOUND_def)
  have m: "Cancel 2 (- 1) \<in> set (drop (length ([] :: usb_event list)) (snd (snd ?r)))"
    by (simp add: stop_run)
  note th = adc_stop_returns_zero [of cancel_failing_host "sample_engine ADC_STATUS_STREAMING 4" "[]"]
  from th have z: "fst ?r = 0"
    by blast
  from th m f have s: "status (fst (snd ?r)) = ADC_STATUS_FAILED"
    by blast
  show ?thesis
    using f z s stop_run by simp
qed

text \<open>
  What the callback does on a status other than completed and cancelled, for any engine.
\<close>

lemma callback_error_path:
  "xfer_status ev \<noteq> LIBUSB_TRANSFER_COMPLETED \<Longrightarrow> xfer_status ev \<noteq> LIBUSB_TRANSFER_CANCELLED \<Longrightarrow>
   adc_read_async_callback h (this, trace) ev =
     (this\<lparr>status := ADC_STATUS_FAILED, active_transfers := active_transfers this - 1\<rparr>,
      trace @ map (\<lambda>k. Cancel (xfer ev) (cancel_ret h k (xfer ev)))
                [length trace..<length trace + unat (num_frames this)])"
  by (cases "xfer_status ev") (simp_all add: adc_read_async_callback_def callback_failed_eq)

text \<open>
  C1: on a completion with status \<open>LIBUSB_TRANSFER_ERROR\<close> for transfer 0 of a ring of four,
  the callback marks the engine FAILED, takes one from the counter and does not call the
  user's callback; its cancellation loop then runs four times, and every time it cancels
  transfer 0, the one that has just failed. Transfers 1, 2 and 3 are never cancelled.
\<close>

theorem callback_cancels_same_transfer:
  "adc_read_async_callback not_found_host (sample_engine ADC_STATUS_STREAMING 4, [])
     \<lparr>xfer = 0, xfer_status = LIBUSB_TRANSFER_ERROR, actual_length = 0\<rparr> =
     (sample_engine ADC_STATUS_FAILED 3,
      [Cancel 0 (- 5), Cancel 0 (- 5), Cancel 0 (- 5), Cancel 0 (- 5)])"
  by (simp add: adc_read_async_callback_def callback_failed_eq sample_engine_def
      not_found_host_def upt_conv_Cons)












lemma alloc_frames_ok:
  "\<forall>k. alloc_ret h k \<noteq> 0 \<Longrightarrow>
   alloc_frames h fsize n allocated trace =
     (Some (allocated @ map (alloc_ret h) [length trace..<length trace + n]),
      trace @ map (\<lambda>k. DevMemAlloc fsize (alloc_ret h k)) [length trace..<length trace + n])"
proof (induction n arbitrary: allocated trace)
  case 0
  then show ?case by simp
next
  case (Suc n)
  let ?p = "alloc_ret h (length trace)"
  have u: "[length trace..<length trace + Suc n] =
           length trace # [length (trace @ [DevMemAlloc fsize ?p])..<
             length (trace @ [DevMemAlloc fsize ?p]) + n]"
    by (simp add: upt_conv_Cons)
  have "?p \<noteq> 0"
    using Suc.prems by simp
  then show ?case
    unfolding u by (simp add: Suc.IH [OF Suc.prems] Let_def)
qed

lemma alloc_frames_length:
  "alloc_frames h fsize n allocated trace = (Some bufs, trace') \<Longrightarrow>
   length bufs = length allocated + n"
proof (induction n arbitrary: allocated trace)
  case 0
  then show ?case by simp
next
  case (Suc n)
  then show ?case
    by (auto simp: Let_def split: if_splits)
qed

lemma unat_max_xfer_size:
  "unat (ucast (mps :: u16) * ucast (burst :: u8) :: u32) = unat mps * unat burst"
proof -
  have a: "unat mps < 2 ^ 16"
    using unsigned_less [of mps] by simp
  have b: "unat burst < 2 ^ 8"
    using unsigned_less [of burst] by simp
  have "unat mps * unat burst < 2 ^ 16 * 2 ^ 8"
    by (rule mult_strict_mono) (use a b in simp_all)
  then have lt: "unat mps * unat burst < 2 ^ 32"
    by simp
  have "(ucast mps * ucast burst :: u32) = of_nat (unat mps * unat burst)"
    by simp
  then show ?thesis
    by (simp only: unat_load_size [OF lt])
qed

lemma max_xfer_size_zero:
  "(ucast (bulk_in_max_packet_size dev) * ucast (bulk_in_max_burst dev) :: u32) = 0 \<longleftrightarrow>
   max_xfer dev = 0"
  using unat_max_xfer_size [of "bulk_in_max_packet_size dev" "bulk_in_max_burst dev"]
  by (metis max_xfer_def unat_eq_zero)

lemma frame_multiple:
  "max_xfer dev \<noteq> 0 \<Longrightarrow>
   (fs mod (ucast (bulk_in_max_packet_size dev) * ucast (bulk_in_max_burst dev) :: u32) = 0) =
   (max_xfer dev dvd unat fs)"
proof -
  let ?m = "ucast (bulk_in_max_packet_size dev) * ucast (bulk_in_max_burst dev) :: u32"
  have "(fs mod ?m = 0) = (unat (fs mod ?m) = 0)"
    by (simp add: unat_eq_zero)
  also have "\<dots> = (unat fs mod unat ?m = 0)"
    by (simp add: unat_mod_distrib)
  also have "\<dots> = (unat ?m dvd unat fs)"
    by (simp add: dvd_eq_mod_eq_0)
  finally show ?thesis
    by (simp add: unat_max_xfer_size max_xfer_def)
qed

lemma effective_sizes:
  "(if fs > 0 then fs else DEFAULT_ADC_FRAME_SIZE) = effective_frame_size fs"
  "(if nf > 0 then nf else DEFAULT_ADC_NUM_FRAMES) = effective_num_frames nf"
  "0 < effective_frame_size fs" "0 < effective_num_frames nf"
  by (auto simp: effective_frame_size_def effective_num_frames_def DEFAULT_ADC_FRAME_SIZE_def
      DEFAULT_ADC_NUM_FRAMES_def word_greater_zero_iff)

text \<open>
  On a handle with a bulk-in endpoint whose packet size times burst is not zero,
  \<open>adc_open_async\<close> fails with \<open>InvalidFrameSize\<close> exactly when the frame size (16 KiB
  when 0 was given) is not a multiple of that product. Otherwise it goes on to allocate:
  it returns an engine with exactly the number of frames asked for (64 when 0 was given),
  or fails because an allocation failed; when every allocation succeeds the calls made
  are that many allocations of the frame size. With 512 and 8 the product is 4096: a
  frame size of 4096 is accepted and 4000 is refused.
\<close>

lemma adc_open_async_frame_size:
  assumes ep: "bulk_in_endpoint_address dev \<noteq> 0" and nz: "max_xfer dev \<noteq> 0"
  shows "(fst (adc_open_async h dev fs nf cb ctx trace) = Fail InvalidFrameSize \<longleftrightarrow>
            \<not> max_xfer dev dvd unat (effective_frame_size fs)) \<and>
         (max_xfer dev dvd unat (effective_frame_size fs) \<longrightarrow>
            fst (adc_open_async h dev fs nf cb ctx trace) = Fail BufferAllocationFailed \<or>
            (\<exists>a. fst (adc_open_async h dev fs nf cb ctx trace) = Ret a \<and>
                 length (frames a) = unat (effective_num_frames nf) \<and>
                 length (transfers a) = unat (effective_num_frames nf) \<and>
                 frame_size a = effective_frame_size fs \<and>
                 num_frames a = effective_num_frames nf \<and> status a = ADC_STATUS_READY)) \<and>
         (max_xfer dev dvd unat (effective_frame_size fs) \<and> (\<forall>k. alloc_ret h k \<noteq> 0) \<longrightarrow>
            (\<exists>a. adc_open_async h dev fs nf cb ctx trace =
                   (Ret a, trace @ map (\<lambda>k. DevMemAlloc (effective_frame_size fs) (alloc_ret h k))
                                     [length trace..<length trace + unat (effective_num_frames nf)]) \<and>
                 length (frames a) = unat (effective_num_frames nf))) \<and>
         (bulk_in_max_packet_size dev = 512 \<and> bulk_in_max_burst dev = 8 \<longrightarrow>
            max_xfer dev = 4096 \<and>
            fst (adc_open_async h dev 4096 nf cb ctx trace) \<noteq> Fail InvalidFrameSize \<and>
            fst (adc_open_async h dev 4000 nf cb ctx trace) = Fail InvalidFrameSize)"
proof -
  let ?m = "ucast (bulk_in_max_packet_size dev) * ucast (bulk_in_max_burst dev) :: u32"
  let ?fs = "effective_frame_size fs"
  let ?nf = "effective_num_frames nf"
  have mz: "?m \<noteq> 0"
    using nz by (simp add: max_xfer_size_zero)
  obtain r tr where al: "alloc_frames h ?fs (unat ?nf) [] trace = (r, tr)"
    by (cases "alloc_frames h ?fs (unat ?nf) [] trace")
  have general: "fst (adc_open_async h dev fs' nf cb ctx trace) = Fail InvalidFrameSize \<longleftrightarrow>
            \<not> max_xfer dev dvd unat (effective_frame_size fs')" for fs'
    using ep mz frame_multiple [OF nz, of "effective_frame_size fs'"]
    by (auto simp: adc_open_async_def Let_def effective_sizes split: prod.splits option.splits)
  have a: "fst (adc_open_async h dev fs nf cb ctx trace) = Fail InvalidFrameSize \<longleftrightarrow>
            \<not> max_xfer dev dvd unat ?fs"
    by (rule general)
  have b: "max_xfer dev dvd unat ?fs \<longrightarrow>
            fst (adc_open_async h dev fs nf cb ctx trace) = Fail BufferAllocationFailed \<or>
            (\<exists>a. fst (adc_open_async h dev fs nf cb ctx trace) = Ret a \<and>
                 length (frames a) = unat ?nf \<and> length (transfers a) = unat ?nf \<and>
                 frame_size a = ?fs \<and> num_frames a = ?nf \<and> status a = ADC_STATUS_READY)"
  proof
    assume d: "max_xfer dev dvd unat ?fs"
    then have m0: "?fs mod ?m = 0"
      using frame_multiple [OF nz, of ?fs] by simp
    show "fst (adc_open_async h dev fs nf cb ctx trace) = Fail BufferAllocationFailed \<or>
            (\<exists>a. fst (adc_open_async h dev fs nf cb ctx trace) = Ret a \<and>
                 length (frames a) = unat ?nf \<and> length (transfers a) = unat ?nf \<and>
                 frame_size a = ?fs \<and> num_frames a = ?nf \<and> status a = ADC_STATUS_READY)"
    proof (cases r)
      case None
      then show ?thesis
        using ep mz m0 al by (simp add: adc_open_async_def Let_def effective_sizes)
    next
      case (Some bufs)
      with alloc_frames_length al have "length bufs = unat ?nf"
        by fastforce
      then show ?thesis
        using ep mz m0 al Some by (simp add: adc_open_async_def Let_def effective_sizes)
    qed
  qed
  have c: "max_xfer dev dvd unat ?fs \<and> (\<forall>k. alloc_ret h k \<noteq> 0) \<longrightarrow>
            (\<exists>a. adc_open_async h dev fs nf cb ctx trace =
                   (Ret a, trace @ map (\<lambda>k. DevMemAlloc ?fs (alloc_ret h k))
                                     [length trace..<length trace + unat ?nf]) \<and>
                 length (frames a) = unat ?nf)"
  proof
    assume d: "max_xfer dev dvd unat ?fs \<and> (\<forall>k. alloc_ret h k \<noteq> 0)"
    then have m0: "?fs mod ?m = 0"
      using frame_multiple [OF nz, of ?fs] by simp
    from d have ok: "\<forall>k. alloc_ret h k \<noteq> 0" by simp
    show "\<exists>a. adc_open_async h dev fs nf cb ctx trace =
                   (Ret a, trace @ map (\<lambda>k. DevMemAlloc ?fs (alloc_ret h k))
                                     [length trace..<length trace + unat ?nf]) \<and>
                 length (frames a) = unat ?nf"
      using ep mz m0
      by (simp add: adc_open_async_def Let_def effective_sizes alloc_frames_ok [OF ok])
  qed
  have e: "bulk_in_max_packet_size dev = 512 \<and> bulk_in_max_burst dev = 8 \<longrightarrow>
            max_xfer dev = 4096 \<and>
            fst (adc_open_async h dev 4096 nf cb ctx trace) \<noteq> Fail InvalidFrameSize \<and>
            fst (adc_open_async h dev 4000 nf cb ctx trace) = Fail InvalidFrameSize"
  proof
    assume v: "bulk_in_max_packet_size dev = 512 \<and> bulk_in_max_burst dev = 8"
    then have m: "max_xfer dev = 4096"
      by (simp add: max_xfer_def)
    have "effective_frame_size 4096 = 4096" "effective_frame_size 4000 = 4000"
      by (simp_all add: effective_frame_size_def)
    then show "max_xfer dev = 4096 \<and>
            fst (adc_open_async h dev 4096 nf cb ctx trace) \<noteq> Fail InvalidFrameSize \<and>
            fst (adc_open_async h dev 4000 nf cb ctx trace) = Fail InvalidFrameSize"
      using general [of 4096] general [of 4000] m by simp
  qed
  from a b c e show ?thesis
    by (intro conjI)
qed

lemma adc_open_async_frame_size_example:
  "bulk_in_endpoint_address sample_device \<noteq> 0 \<and> max_xfer sample_device = 4096 \<and>
   (\<forall>k. alloc_ret quiet_host k \<noteq> 0) \<and>
   fst (adc_open_async quiet_host sample_device 4000 4 1 0 []) = Fail InvalidFrameSize \<and>
   adc_open_async quiet_host sample_device 4096 4 1 0 [] =
     (Ret (sample_engine ADC_STATUS_READY 0),
      [DevMemAlloc 4096 4096, DevMemAlloc 4096 8192, DevMemAlloc 4096 12288,
       DevMemAlloc 4096 16384]) \<and>
   (\<exists>a. fst (adc_open_async quiet_host sample_device 0 0 1 0 []) = Ret a \<and>
        length (frames a) = 64 \<and> frame_size a = 16384)"
proof -
  have ep: "bulk_in_endpoint_address sample_device \<noteq> 0"
    by (simp add: sample_device_def)
  have m: "max_xfer sample_device = 4096"
    by (simp add: max_xfer_def sample_device_def)
  have nz: "max_xfer sample_device \<noteq> 0"
    by (simp add: m)
  have ok: "\<forall>k. alloc_ret quiet_host k \<noteq> 0"
    by (simp add: quiet_host_def)
  have v: "bulk_in_max_packet_size sample_device = 512 \<and> bulk_in_max_burst sample_device = 8"
    by (simp add: sample_device_def)
  note th = adc_open_async_frame_size [OF ep nz, of quiet_host _ _ 1 0 "[]"]
  from th [of 0 4] v have bad: "fst (adc_open_async quiet_host sample_device 4000 4 1 0 []) =
      Fail InvalidFrameSize"
    by blast
  have d: "max_xfer sample_device dvd unat (effective_frame_size 4096)"
    by (simp add: m effective_frame_size_def)
  from th [of 4096 4] d ok obtain a where a:
    "adc_open_async quiet_host sample_device 4096 4 1 0 [] =
       (Ret a, [] @ map (\<lambda>k. DevMemAlloc (effective_frame_size 4096) (alloc_ret quiet_host k))
                       [length ([] :: usb_event list)..<
                        length ([] :: usb_event list) + unat (effective_num_frames 4)])"
    by blast
  have run: "adc_open_async quiet_host sample_device 4096 4 1 0 [] =
     (Ret (sample_engine ADC_STATUS_READY 0),
      [DevMemAlloc 4096 4096, DevMemAlloc 4096 8192, DevMemAlloc 4096 12288,
       DevMemAlloc 4096 16384])"
    using ok
    by (simp add: adc_open_async_def sample_device_def Let_def alloc_frames_ok
        sample_engine_def DEFAULT_ADC_SAMPLE_RATE_def quiet_host_def upt_conv_Cons)
  have d0: "max_xfer sample_device dvd unat (effective_frame_size 0)"
    by (simp add: m effective_frame_size_def)
  from th [of 0 0] d0 ok obtain a0 where a0:
    "fst (adc_open_async quiet_host sample_device 0 0 1 0 []) = Ret a0"
    "length (frames a0) = unat (effective_num_frames 0)"
    by fastforce
  from th [of 0 0] d0 a0(1) have "frame_size a0 = effective_frame_size 0"
    by auto
  with a0 have def: "\<exists>a. fst (adc_open_async quiet_host sample_device 0 0 1 0 []) = Ret a \<and>
        length (frames a) = 64 \<and> frame_size a = 16384"
    by (simp add: effective_num_frames_def effective_frame_size_def)
  show ?thesis
    using ep m ok bad run def by simp
qed

text \<open>
  C4: on the handle \<open>zero_burst_device\<close>, which has a bulk-in endpoint with burst 0, the
  product of packet size and burst is 0, and the frame size 4096 is not a multiple of
  it. \<open>adc_open_async\<close> does not fail with \<open>InvalidFrameSize\<close>: it computes the remainder
  of the frame size by 0, which is undefined, before any allocation.
\<close>

theorem adc_open_async_zero_burst:
  "bulk_in_endpoint_address zero_burst_device \<noteq> 0 \<and>
   max_xfer zero_burst_device = 0 \<and>
   \<not> max_xfer zero_burst_device dvd unat (effective_frame_size 4096) \<and>
   adc_open_async quiet_host zero_burst_device 4096 4 1 0 [] = (Undefined DivisionByZero, [])"
  by (simp add: zero_burst_device_def max_xfer_def effective_frame_size_def adc_open_async_def
      Let_def)

end
